theory Spec2Isabelle
  imports Main
begin

section \<open>The sketch hoggy-train-sounds-and-lights.ino as HOL functions\<close>

text \<open>
  The sketch is a single-threaded Arduino program: global variables, \<open>setup()\<close> run once,
  \<open>loop()\<close> run forever. The globals become one record, every function of the sketch a
  function on that record. The three libraries (Mozzi, Talkie, Adafruit NeoPixel) are
  collaborators: the calls the sketch makes to them are recorded in a trace (newest
  first), and what they report back to the sketch (whether Mozzi's control callback ran
  in a tick and whether its delay had expired, the values of the random generator) is an
  input of each tick. Calls that neither change a variable of the sketch nor carry a
  value (\<open>digitalWrite\<close>, \<open>delay\<close>, \<open>startMozzi\<close>, \<open>stopMozzi\<close>, \<open>strip.show\<close>, \<open>voice.wait\<close>)
  are left out, and so is \<open>updateAudio\<close>, which only reads the variables.

  \<open>int\<close> is 16 bits wide on the Arduino Nano. It is modelled by HOL's \<open>int\<close>: the values the
  sketch computes from its own variables and tables stay between -100 and 3072 (the
  invariant \<open>inv\<close> below bounds the variables), so no operation wraps; the one sum the
  sketch computes in \<open>unsigned int\<close> is reduced modulo 65536. The tick counter is an
  \<open>unsigned long\<close> that the sketch itself resets above 32000; it is a \<open>nat\<close>.
\<close>

subsection \<open>Preprocessor constants\<close>

abbreviation (input) LED_COUNT :: int where "LED_COUNT \<equiv> 3"
abbreviation (input) MOZZI_CHUFF :: int where "MOZZI_CHUFF \<equiv> 1"
abbreviation (input) MOZZI_NOTE :: int where "MOZZI_NOTE \<equiv> 2"
abbreviation (input) MOZZI_WHISTLE :: int where "MOZZI_WHISTLE \<equiv> 3"
abbreviation (input) CHUFF_DELAY :: int where "CHUFF_DELAY \<equiv> 1100"
abbreviation (input) NUM_CHUFFS :: int where "NUM_CHUFFS \<equiv> 15"
abbreviation (input) FLICKERS_PER_SOUND :: nat where "FLICKERS_PER_SOUND \<equiv> 300"

abbreviation (input) NOTE_A4 :: int where "NOTE_A4 \<equiv> 440"
abbreviation (input) NOTE_AS4 :: int where "NOTE_AS4 \<equiv> 466"
abbreviation (input) NOTE_B4 :: int where "NOTE_B4 \<equiv> 494"
abbreviation (input) NOTE_C5 :: int where "NOTE_C5 \<equiv> 523"
abbreviation (input) NOTE_D5 :: int where "NOTE_D5 \<equiv> 587"
abbreviation (input) NOTE_DS5 :: int where "NOTE_DS5 \<equiv> 622"
abbreviation (input) NOTE_E5 :: int where "NOTE_E5 \<equiv> 659"
abbreviation (input) NOTE_F5 :: int where "NOTE_F5 \<equiv> 698"
abbreviation (input) NOTE_FS5 :: int where "NOTE_FS5 \<equiv> 740"
abbreviation (input) NOTE_G5 :: int where "NOTE_G5 \<equiv> 784"
abbreviation (input) NOTE_GS5 :: int where "NOTE_GS5 \<equiv> 831"
abbreviation (input) NOTE_A5 :: int where "NOTE_A5 \<equiv> 880"
abbreviation (input) NOTE_AS5 :: int where "NOTE_AS5 \<equiv> 932"
abbreviation (input) NOTE_B5 :: int where "NOTE_B5 \<equiv> 988"
abbreviation (input) NOTE_C6 :: int where "NOTE_C6 \<equiv> 1047"
abbreviation (input) NOTE_CS6 :: int where "NOTE_CS6 \<equiv> 1109"
abbreviation (input) NOTE_D6 :: int where "NOTE_D6 \<equiv> 1175"
abbreviation (input) NOTE_DS6 :: int where "NOTE_DS6 \<equiv> 1245"
abbreviation (input) NOTE_E6 :: int where "NOTE_E6 \<equiv> 1319"
abbreviation (input) NOTE_F6 :: int where "NOTE_F6 \<equiv> 1397"

abbreviation (input) WHISTLE_INITIAL :: int where "WHISTLE_INITIAL \<equiv> 0"
abbreviation (input) WHISTLE_TRITONE :: int where "WHISTLE_TRITONE \<equiv> 1"
abbreviation (input) WHISTLE_FADE :: int where "WHISTLE_FADE \<equiv> 2"
abbreviation (input) WHISTLE_DUD :: int where "WHISTLE_DUD \<equiv> 3"
abbreviation (input) WHISTLE_INITIAL_DURATION :: int where "WHISTLE_INITIAL_DURATION \<equiv> 900"
abbreviation (input) WHISTLE_TRITONE_DURATION :: int where "WHISTLE_TRITONE_DURATION \<equiv> 900"
abbreviation (input) WHISTLE_FADE_DURATION :: int where "WHISTLE_FADE_DURATION \<equiv> 0"
abbreviation (input) WHISTLE_A :: int where "WHISTLE_A \<equiv> NOTE_B5"
abbreviation (input) WHISTLE_B :: int where "WHISTLE_B \<equiv> NOTE_G5"
abbreviation (input) WHISTLE_C :: int where "WHISTLE_C \<equiv> NOTE_G5"
abbreviation (input) WHISTLE_D :: int where "WHISTLE_D \<equiv> NOTE_D5"

abbreviation (input) MELODY_LENGTH :: int where "MELODY_LENGTH \<equiv> 30"
abbreviation (input) MELODY2_LENGTH :: int where "MELODY2_LENGTH \<equiv> 43"

subsection \<open>The note tables\<close>

definition melody :: "int list" where
  "melody = [NOTE_B4,
     NOTE_E5, NOTE_G5, NOTE_FS5,
     NOTE_E5, NOTE_B5,
     NOTE_A5,
     NOTE_FS5,
     NOTE_E5, NOTE_G5, NOTE_FS5,
     NOTE_DS5, NOTE_F5,
     NOTE_B4,
     NOTE_B4,
     NOTE_E5, NOTE_G5, NOTE_FS5,
     NOTE_E5, NOTE_B5,
     NOTE_D6,
     NOTE_CS6, NOTE_C6,
     NOTE_GS5, NOTE_C6, NOTE_B5,
     NOTE_AS5, NOTE_AS4, NOTE_G5,
     NOTE_E5]"

definition melodyDurations :: "int list" where
  "melodyDurations = [4,
     -4, 8, 4,
     2, 4,
     -2,
     -2,
     -4, 8, 4,
     2, 4,
     -1,
     4,
     -4, 8, 4,
     2, 4,
     2, 4,
     2, 4,
     -4, 8, 4,
     2, 4,
     -1]"

definition melody2 :: "int list" where
  "melody2 = [
     NOTE_E5, NOTE_E6, NOTE_C6, NOTE_E6, NOTE_C6, NOTE_F6, NOTE_E6, NOTE_DS6,
     NOTE_DS6, NOTE_E6, NOTE_C6, NOTE_A5, NOTE_DS5, NOTE_C6, NOTE_A5,
     NOTE_A4, NOTE_B4, NOTE_C5,
     NOTE_G5, NOTE_G5, NOTE_G5,
     NOTE_F5, NOTE_C6, NOTE_E6, NOTE_C6,
     NOTE_F5, NOTE_F5,
     NOTE_D5,
     NOTE_E5, NOTE_E6, NOTE_C6, NOTE_E6, NOTE_C6, NOTE_F6, NOTE_E6, NOTE_DS6,
     NOTE_DS6, NOTE_E6, NOTE_C6, NOTE_A5, NOTE_DS5, NOTE_C6, NOTE_A5]"

definition melody2Durations :: "int list" where
  "melody2Durations = [
     4, 2, 4, 2, 4, 2, 4, 2,
     4, -4, 8, -8, 2, 4, 1,
     -4, -4, 4,
     4, 4, 4,
     4, 4, 4, 4,
     4, 4,
     1,
     4, 2, 4, 2, 4, 2, 4, 2,
     4, -4, 8, -8, 2, 4, -1]"

subsection \<open>Data\<close>

text \<open>Undefined behaviour of the C++ source is a fault of the model, never a value.\<close>

datatype fault = OutOfBounds | DivByZero

datatype sound = Melody | Announcement | PulseSequence | ToneSequence

text \<open>The Talkie vocabulary entries the announcement uses.\<close>

datatype vocab = sp2_X | sp2_PRESS | sp2_NINE | sp2_FIVE | sp2_SEVEN | sp2_TWO
  | sp5_DEPARTURE | sp2_FROM | sp2_AND | sp2_THREE | sp2_FOUR | sp2_ALL | sp2_ABORT

text \<open>
  The calls to the collaborators:
  \<^item> \<open>Started snd\<close>: one of \<open>startMelody\<close>, \<open>stationAnnouncement\<close>, \<open>startChuffing\<close>,
    \<open>startWhistle\<close> was entered;
  \<^item> \<open>Note freq duration\<close>: \<open>aSin.setFreq(freq)\<close> and \<open>kDelay.start(duration)\<close> in \<open>playNote\<close>;
  \<^item> \<open>Tone stage freqs duration\<close>: the oscillator frequencies set by \<open>whistle(stage)\<close> and
    the duration given to \<open>kDelay.start\<close>;
  \<^item> \<open>Pulse attack decay total\<close>: \<open>kEnvelope.start(attack, decay)\<close> and
    \<open>kDelay.start(total)\<close> in \<open>chuff\<close>;
  \<^item> \<open>Say w\<close>: \<open>voice.sayQ(w)\<close>;
  \<^item> \<open>Pixel n r g b\<close>: a \<open>strip.setPixelColor(n, r, g, b)\<close> that stored a color.
\<close>

datatype event =
    Started sound
  | Note int int
  | Tone int "int list" int
  | Pulse int int int
  | Say vocab
  | Pixel int int int int

record state =
  gain :: int
  inMozzi :: int
  mozziMode :: int
  inMelody :: int
  curMelodyNote :: int
  whichMelody :: int
  inChuffing :: int
  curChuff :: int
  chuffDelay :: int
  inWhistle :: int
  curWhistle :: int
  whichSound :: int
  counter :: nat
  pixels :: "(int \<times> int \<times> int) list"
  trace :: "event list"

text \<open>
  What one call of Mozzi's \<open>audioHook()\<close> does to the sketch: it either does not reach the
  control callback, or calls \<open>updateControl()\<close> once; then \<open>kDelay.ready()\<close> and
  \<open>kEnvelope.next()\<close> have the values given here.
\<close>

datatype hook = NoControl | Control bool int

text \<open>
  The inputs of one tick: the hook, and the values the C library's \<open>random()\<close> returns to
  the successive calls of Arduino's \<open>random(max)\<close> in this tick (the i-th call gets
  \<open>rnd i\<close>).
\<close>

record env =
  hook :: hook
  rnd :: "nat \<Rightarrow> nat"

subsection \<open>C operations\<close>

text \<open>Integer division of C: truncation towards zero, undefined for a zero divisor.\<close>

definition cdiv :: "int \<Rightarrow> int \<Rightarrow> fault + int" where
  "cdiv a b = (if b = 0 then Inl DivByZero else Inr (sgn a * sgn b * (\<bar>a\<bar> div \<bar>b\<bar>)))"

text \<open>Reading a global array: outside the array the behaviour is undefined.\<close>

definition readArray :: "int list \<Rightarrow> int \<Rightarrow> fault + int" where
  "readArray xs i = (if 0 \<le> i \<and> i < int (length xs) then Inr (xs ! nat i) else Inl OutOfBounds)"

text \<open>Arduino's \<open>random(howbig)\<close>: 0 for \<open>howbig = 0\<close>, else \<open>random() % howbig\<close>.\<close>

definition random_max :: "nat \<Rightarrow> nat \<Rightarrow> int" where
  "random_max raw howbig = (if howbig = 0 then 0 else int (raw mod howbig))"

subsection \<open>Lights\<close>

text \<open>
  \<open>Adafruit_NeoPixel::setPixelColor(uint16_t n, uint8_t r, uint8_t g, uint8_t b)\<close>: the
  color bytes are stored when \<open>n < numLEDs\<close> (the brightness is 255, which stores them
  unscaled), and the call does nothing otherwise.
\<close>

definition setPixelColor :: "int \<Rightarrow> int \<Rightarrow> int \<Rightarrow> int \<Rightarrow> state \<Rightarrow> state" where
  "setPixelColor n r g b s =
     (if 0 \<le> n \<and> n < LED_COUNT \<and> nat n < length (pixels s)
      then s\<lparr>pixels := (pixels s)[nat n := (r mod 256, g mod 256, b mod 256)],
             trace := Pixel n (r mod 256) (g mod 256) (b mod 256) # trace s\<rparr>
      else s)"

definition cutTheLights :: "state \<Rightarrow> state" where
  "cutTheLights s = setPixelColor 2 0 0 0 (setPixelColor 1 0 0 0 (setPixelColor 0 0 0 0 s))"

definition trainLights :: "(nat \<Rightarrow> nat) \<Rightarrow> state \<Rightarrow> state" where
  "trainLights rn s =
     (let whichLight = random_max (rn 0) 3;
          pause = 10 + random_max (rn 1) 90
      in if whichLight = 2 then
           (let r = 200 + random_max (rn 2) 10;
                g = r - 120 + random_max (rn 3) 5;
                b = g
            in setPixelColor whichLight r g b s)
         else if whichLight = 0 then
           (let g = 95 + random_max (rn 2) 5;
                r = 195 + random_max (rn 3) 10;
                b = 0
            in setPixelColor whichLight r g b s)
         else if random_max (rn 2) 10 = 1 then
           (let r = 255 * random_max (rn 3) 2;
                g = 255 * random_max (rn 4) 2;
                b = 255 * random_max (rn 5) 2
            in setPixelColor whichLight r g b s)
         else
           (let r = 150 + random_max (rn 3) 50;
                g = random_max (rn 4) 20;
                b = 0
            in setPixelColor whichLight r g b s))"

subsection \<open>Melody player\<close>

definition playNote :: "int \<Rightarrow> int \<Rightarrow> state \<Rightarrow> state" where
  "playNote freq duration s =
     s\<lparr>inMozzi := 1, mozziMode := MOZZI_NOTE, trace := Note freq duration # trace s\<rparr>"

text \<open>Lines 514 to 522 of \<open>playNextNoteInMelody\<close>: from the duration code to milliseconds.\<close>

definition noteLength :: "int \<Rightarrow> fault + int" where
  "noteLength code =
     (let duration = (if code = 0 then 1 else code)
      in if duration > 0 then cdiv 1024 duration
         else (let duration = - duration in cdiv (1024 * 3) (duration * 2)))"

definition playNextNoteInMelody :: "state \<Rightarrow> fault + state" where
  "playNextNoteInMelody s =
     (let (durations, notes, melodyLength) =
            (if whichMelody s = 0 then (melodyDurations, melody, MELODY_LENGTH)
             else (melody2Durations, melody2, MELODY2_LENGTH))
      in (case readArray durations (curMelodyNote s) of Inl f \<Rightarrow> Inl f | Inr code \<Rightarrow>
         (case readArray notes (curMelodyNote s) of Inl f \<Rightarrow> Inl f | Inr note \<Rightarrow>
         (case noteLength code of Inl f \<Rightarrow> Inl f | Inr duration \<Rightarrow>
           (let s1 = playNote note duration s;
                s2 = s1\<lparr>curMelodyNote := curMelodyNote s1 + 1\<rparr>
            in if curMelodyNote s2 \<ge> melodyLength
               then Inr (s2\<lparr>curMelodyNote := 0, inMelody := 0\<rparr>)
               else Inr s2)))))"

text \<open>The assignments of \<open>startMelody\<close>, before its call of \<open>playNextNoteInMelody\<close>.\<close>

definition resetMelody :: "state \<Rightarrow> state" where
  "resetMelody s =
     (let s1 = s\<lparr>inMelody := 1, curMelodyNote := 0, whichMelody := whichSound s,
                 trace := Started Melody # trace s\<rparr>
      in if whichMelody s1 > 0 then s1\<lparr>whichMelody := 1\<rparr> else s1)"

definition startMelody :: "state \<Rightarrow> fault + state" where
  "startMelody s = playNextNoteInMelody (resetMelody s)"

subsection \<open>Tone sequencer (whistle)\<close>

definition whistle :: "int \<Rightarrow> state \<Rightarrow> state" where
  "whistle whichWhistle s =
     (let s1 = s\<lparr>inMozzi := 1, mozziMode := MOZZI_WHISTLE\<rparr>
      in if whichWhistle = WHISTLE_TRITONE then
           s1\<lparr>trace := Tone whichWhistle [WHISTLE_A, WHISTLE_B, WHISTLE_C, WHISTLE_D]
                          WHISTLE_TRITONE_DURATION # trace s1\<rparr>
         else if whichWhistle = WHISTLE_INITIAL then
           s1\<lparr>trace := Tone whichWhistle [WHISTLE_A] WHISTLE_INITIAL_DURATION # trace s1\<rparr>
         else
           s1\<lparr>trace := Tone whichWhistle [WHISTLE_A] WHISTLE_FADE_DURATION # trace s1\<rparr>)"

definition nextWhistle :: "state \<Rightarrow> state" where
  "nextWhistle s =
     (let s1 = whistle (curWhistle s) s;
          s2 = s1\<lparr>curWhistle := curWhistle s1 + 1\<rparr>
      in if curWhistle s2 > WHISTLE_FADE then s2\<lparr>curWhistle := 0, inWhistle := 0\<rparr> else s2)"

text \<open>The assignments of \<open>startWhistle\<close>, before its call of \<open>nextWhistle\<close>.\<close>

definition resetWhistle :: "state \<Rightarrow> state" where
  "resetWhistle s =
     s\<lparr>inWhistle := 1, curWhistle := 0, trace := Started ToneSequence # trace s\<rparr>"

definition startWhistle :: "state \<Rightarrow> state" where
  "startWhistle s = nextWhistle (resetWhistle s)"

subsection \<open>Pulse sequencer (chuff)\<close>

text \<open>
  \<open>chuff\<close> overwrites its random duration and attack with 1000 and 75 before using them.
  \<open>duration + chuffDelay\<close> is computed in \<open>unsigned int\<close>, 16 bits wide.
\<close>

definition chuff :: "state \<Rightarrow> state" where
  "chuff s =
     (let duration = 1000; attack = 75; decay = duration - attack
      in s\<lparr>inMozzi := 1, mozziMode := MOZZI_CHUFF,
            trace := Pulse attack decay ((duration + chuffDelay s) mod 65536) # trace s\<rparr>)"

definition chuffNextChuff :: "state \<Rightarrow> state" where
  "chuffNextChuff s =
     (let s1 = chuff s;
          s2 = s1\<lparr>chuffDelay := chuffDelay s1 - 150\<rparr>;
          s3 = (if chuffDelay s2 < 50 then s2\<lparr>chuffDelay := 50\<rparr> else s2);
          s4 = s3\<lparr>curChuff := curChuff s3 + 1\<rparr>
      in if curChuff s4 \<ge> NUM_CHUFFS then s4\<lparr>curChuff := 0, inChuffing := 0\<rparr> else s4)"

text \<open>The assignments of \<open>startChuffing\<close>, before its call of \<open>chuffNextChuff\<close>.\<close>

definition resetChuffing :: "state \<Rightarrow> state" where
  "resetChuffing s =
     s\<lparr>inChuffing := 1, curChuff := 0, chuffDelay := CHUFF_DELAY,
       trace := Started PulseSequence # trace s\<rparr>"

definition startChuffing :: "state \<Rightarrow> state" where
  "startChuffing s = chuffNextChuff (resetChuffing s)"

subsection \<open>Announcement\<close>

definition announcementWords :: "vocab list" where
  "announcementWords = [sp2_X, sp2_PRESS, sp2_NINE, sp2_FIVE, sp2_SEVEN, sp2_TWO,
     sp5_DEPARTURE, sp2_FROM, sp2_NINE, sp2_AND, sp2_THREE, sp2_FOUR, sp2_ALL, sp2_ABORT]"

text \<open>
  \<open>stationAnnouncement\<close> queues its words and waits for Talkie to finish inside the call;
  it changes no variable of the sketch.
\<close>

definition stationAnnouncement :: "state \<Rightarrow> state" where
  "stationAnnouncement s =
     s\<lparr>trace := rev (map Say announcementWords) @ Started Announcement # trace s\<rparr>"

subsection \<open>Mozzi's control callback\<close>

definition updateControl :: "bool \<Rightarrow> int \<Rightarrow> state \<Rightarrow> state" where
  "updateControl ready envelope s =
     (if ready then s\<lparr>gain := 0, inMozzi := 0\<rparr>
      else if mozziMode s = MOZZI_CHUFF \<or> mozziMode s = MOZZI_WHISTLE
           then s\<lparr>gain := envelope\<rparr>
           else s)"

definition audioHook :: "hook \<Rightarrow> state \<Rightarrow> state" where
  "audioHook h s = (case h of NoControl \<Rightarrow> s | Control ready envelope \<Rightarrow> updateControl ready envelope s)"

subsection \<open>setup and loop\<close>

text \<open>The globals as their initialisers leave them; the strip's buffer starts zeroed.\<close>

definition initial :: state where
  "initial = \<lparr>gain = 0, inMozzi = 0, mozziMode = MOZZI_CHUFF,
     inMelody = 0, curMelodyNote = 0, whichMelody = 0,
     inChuffing = 0, curChuff = 0, chuffDelay = CHUFF_DELAY,
     inWhistle = 0, curWhistle = WHISTLE_INITIAL,
     whichSound = 0, counter = 1,
     pixels = [(0, 0, 0), (0, 0, 0), (0, 0, 0)], trace = []\<rparr>"

definition setup_board :: "fault + state" where
  "setup_board =
     (let s1 = cutTheLights initial;
          s2 = s1\<lparr>inMozzi := 0\<rparr>
      in case startMelody s2 of Inl f \<Rightarrow> Inl f
         | Inr s3 \<Rightarrow> Inr (s3\<lparr>whichSound := whichSound s3 + 1\<rparr>))"

text \<open>Lines 780 to 792 of \<open>loop\<close>: launch the sound of the rotation and advance the rotation.\<close>

definition launchSound :: "state \<Rightarrow> fault + state" where
  "launchSound s =
     (case (if whichSound s < 2 then startMelody s
            else if whichSound s = 2 then Inr (stationAnnouncement s)
            else if whichSound s = 3 then Inr (startChuffing s)
            else Inr (startWhistle s)) of
        Inl f \<Rightarrow> Inl f
      | Inr s1 \<Rightarrow>
          (let s2 = s1\<lparr>whichSound := whichSound s1 + 1\<rparr>
           in if whichSound s2 > 4 then Inr (s2\<lparr>whichSound := 0\<rparr>) else Inr s2))"

text \<open>Lines 794 to 797 of \<open>loop\<close>.\<close>

definition bumpCounter :: "state \<Rightarrow> state" where
  "bumpCounter s =
     (let s1 = s\<lparr>counter := counter s + 1\<rparr>
      in if counter s1 > 32000 then s1\<lparr>counter := 0\<rparr> else s1)"

definition loop :: "env \<Rightarrow> state \<Rightarrow> fault + state" where
  "loop e s =
     (if inMozzi s = 1 then Inr (audioHook (hook e) s)
      else if inMelody s = 1 then playNextNoteInMelody s
      else if inChuffing s = 1 then Inr (chuffNextChuff s)
      else
        (let s1 = (if inWhistle s = 1 then nextWhistle s else s);
             s2 = trainLights (rnd e) s1
         in case (if counter s2 mod FLICKERS_PER_SOUND = 0 then launchSound s2 else Inr s2) of
              Inl f \<Rightarrow> Inl f
            | Inr s3 \<Rightarrow> Inr (bumpCounter s3)))"

text \<open>A run of the sketch: one \<open>loop\<close> call for every input of the list.\<close>

fun run :: "env list \<Rightarrow> state \<Rightarrow> fault + state" where
  "run [] s = Inr s"
| "run (e # es) s = (case loop e s of Inl f \<Rightarrow> Inl f | Inr s1 \<Rightarrow> run es s1)"

text \<open>The states the sketch can be in between two calls of \<open>loop\<close>.\<close>

inductive reachable :: "state \<Rightarrow> bool" where
  after_setup: "setup_board = Inr s \<Longrightarrow> reachable s"
| after_loop: "reachable s \<Longrightarrow> loop e s = Inr s1 \<Longrightarrow> reachable s1"

subsection \<open>Observations of a state\<close>

text \<open>The table the melody player reads, as \<open>playNextNoteInMelody\<close> chooses it.\<close>

definition chosenNotes :: "state \<Rightarrow> int list" where
  "chosenNotes s = (if whichMelody s = 0 then melody else melody2)"

definition chosenDurations :: "state \<Rightarrow> int list" where
  "chosenDurations s = (if whichMelody s = 0 then melodyDurations else melody2Durations)"

definition melodyLen :: "state \<Rightarrow> int" where
  "melodyLen s = (if whichMelody s = 0 then MELODY_LENGTH else MELODY2_LENGTH)"

text \<open>The playback length the conversion computes from a duration code.\<close>

definition noteMillis :: "int \<Rightarrow> int" where
  "noteMillis d = (if d = 0 then 1024 else if 0 < d then 1024 div d else 3072 div (\<bar>d\<bar> * 2))"

text \<open>\<open>n\<close> successive calls of \<open>playNextNoteInMelody\<close>.\<close>

fun playNotes :: "nat \<Rightarrow> state \<Rightarrow> fault + state" where
  "playNotes 0 s = Inr s"
| "playNotes (Suc n) s =
     (case playNextNoteInMelody s of Inl f \<Rightarrow> Inl f | Inr s1 \<Rightarrow> playNotes n s1)"

text \<open>The whistle stages in a trace, newest first, and the stages a state has played, oldest first.\<close>

fun toneStages :: "event list \<Rightarrow> int list" where
  "toneStages [] = []"
| "toneStages (Tone stage freqs duration # es) = stage # toneStages es"
| "toneStages (e # es) = toneStages es"

definition stagesPlayed :: "state \<Rightarrow> int list" where
  "stagesPlayed s = rev (toneStages (trace s))"

text \<open>
  Calling \<open>nextWhistle\<close> for as long as \<open>inWhistle\<close> is 1, as \<open>loop\<close> does; \<open>None\<close> when
  the whistle is still active after the given number of calls.
\<close>

fun whistleToEnd :: "nat \<Rightarrow> state \<Rightarrow> state option" where
  "whistleToEnd 0 s = (if inWhistle s = 1 then None else Some s)"
| "whistleToEnd (Suc n) s = (if inWhistle s = 1 then whistleToEnd n (nextWhistle s) else Some s)"

text \<open>The sounds started in a trace, newest first, and the launches of a state, oldest first.\<close>

fun started :: "event list \<Rightarrow> sound list" where
  "started [] = []"
| "started (Started x # es) = x # started es"
| "started (e # es) = started es"

definition launches :: "state \<Rightarrow> sound list" where
  "launches s = rev (started (trace s))"

text \<open>The number of colors written to the strip since the last sound was started.\<close>

fun flickersSince :: "event list \<Rightarrow> nat" where
  "flickersSince [] = 0"
| "flickersSince (Started x # es) = 0"
| "flickersSince (Pixel n r g b # es) = Suc (flickersSince es)"
| "flickersSince (e # es) = flickersSince es"

subsection \<open>Reachable states and their invariant\<close>

text \<open>The number of synthesis sub-machines that report themselves active.\<close>

definition activeCount :: "state \<Rightarrow> nat" where
  "activeCount s = (if inMelody s = 1 then 1 else 0) + (if inChuffing s = 1 then 1 else 0)
     + (if inWhistle s = 1 then 1 else 0)"

text \<open>
  What holds between two calls of \<open>loop\<close>: the flags are 0 or 1 and at most one of the
  three sub-machine flags is 1, every index is inside its table, and a whistle in progress
  has played as many stages as the counter has advanced since the multiple of 300 at
  which it was launched.
\<close>

definition inv :: "state \<Rightarrow> bool" where
  "inv s \<longleftrightarrow>
     (inMozzi s = 0 \<or> inMozzi s = 1) \<and>
     (inMelody s = 0 \<or> inMelody s = 1) \<and>
     (inChuffing s = 0 \<or> inChuffing s = 1) \<and>
     (inWhistle s = 0 \<or> inWhistle s = 1) \<and>
     inMelody s + inChuffing s + inWhistle s \<le> 1 \<and>
     (whichMelody s = 0 \<or> whichMelody s = 1) \<and>
     0 \<le> curMelodyNote s \<and> curMelodyNote s < melodyLen s \<and>
     0 \<le> curChuff s \<and> curChuff s < NUM_CHUFFS \<and>
     50 \<le> chuffDelay s \<and> chuffDelay s \<le> CHUFF_DELAY \<and>
     0 \<le> curWhistle s \<and> curWhistle s \<le> WHISTLE_FADE \<and>
     (inWhistle s = 1 \<longrightarrow> 1 \<le> curWhistle s \<and> int (counter s mod FLICKERS_PER_SOUND) = curWhistle s) \<and>
     0 \<le> whichSound s \<and> whichSound s \<le> 4 \<and>
     counter s \<le> 32000 \<and>
     length (pixels s) = 3"

text \<open>The state \<open>setup\<close> leaves, and the state one tick later when the first note has ended.\<close>

definition setupState :: state where
  "setupState = \<lparr>gain = 0, inMozzi = 1, mozziMode = MOZZI_NOTE,
     inMelody = 1, curMelodyNote = 1, whichMelody = 0,
     inChuffing = 0, curChuff = 0, chuffDelay = CHUFF_DELAY,
     inWhistle = 0, curWhistle = 0,
     whichSound = 1, counter = 1,
     pixels = [(0, 0, 0), (0, 0, 0), (0, 0, 0)],
     trace = [Note NOTE_B4 256, Started Melody, Pixel 2 0 0 0, Pixel 1 0 0 0, Pixel 0 0 0 0]\<rparr>"

definition betweenNotes :: state where
  "betweenNotes = setupState\<lparr>gain := 0, inMozzi := 0\<rparr>"

text \<open>The sound \<open>loop\<close> launches at a rotation index (the chain of comparisons in lines 780 to 788).\<close>

definition soundAt :: "int \<Rightarrow> sound" where
  "soundAt w = (if w < 2 then Melody else if w = 2 then Announcement
                else if w = 3 then PulseSequence else ToneSequence)"

text \<open>
  The rotation as the launches show it: the melody of \<open>setup\<close> is launch 0, and the launches
  of \<open>loop\<close> after it cycle through \<open>loopRotation\<close>.
\<close>

definition loopRotation :: "sound list" where
  "loopRotation = [Melody, Announcement, PulseSequence, ToneSequence, Melody]"

definition nthLaunch :: "nat \<Rightarrow> sound" where
  "nthLaunch k = (if k = 0 then Melody else loopRotation ! ((k - 1) mod 5))"

definition rotation_ok :: "state \<Rightarrow> bool" where
  "rotation_ok s \<longleftrightarrow> launches s = map nthLaunch [0..<length (launches s)] \<and> launches s \<noteq> []
     \<and> whichSound s = int (length (launches s) mod 5)"

subsection \<open>Runs that let every sound end\<close>

text \<open>
  The tick input in which Mozzi's delay has always expired and every random draw is 0
  (zone 0 gets the color 195, 95, 0).
\<close>

definition calm :: env where
  "calm = \<lparr>hook = Control True 0, rnd = (\<lambda>i. 0)\<rparr>"

text \<open>
  A settled state sends the next tick to the lights and the counter; a quiet state has no
  whistle in progress either.
\<close>

definition settled :: "state \<Rightarrow> bool" where
  "settled s \<longleftrightarrow> inMozzi s = 0 \<and> inMelody s = 0 \<and> inChuffing s = 0"

definition quiet :: "state \<Rightarrow> bool" where
  "quiet s \<longleftrightarrow> settled s \<and> inWhistle s = 0"

text \<open>What the ticks of a melody or of a pulse sequence leave as it was.\<close>

definition kept :: "state \<Rightarrow> state \<Rightarrow> bool" where
  "kept s s1 \<longleftrightarrow> counter s1 = counter s \<and> whichSound s1 = whichSound s
     \<and> inWhistle s1 = inWhistle s \<and> curWhistle s1 = curWhistle s \<and> pixels s1 = pixels s
     \<and> started (trace s1) = started (trace s)
     \<and> flickersSince (trace s1) = flickersSince (trace s)"

text \<open>Twice the notes or pulses still to start, plus one while a note or pulse sounds.\<close>

definition drainMeasure :: "state \<Rightarrow> nat" where
  "drainMeasure s =
     2 * (if inMelody s = 1 then nat (melodyLen s - curMelodyNote s) else 0)
     + 2 * (if inChuffing s = 1 then nat (NUM_CHUFFS - curChuff s) else 0)
     + (if inMozzi s = 1 then 1 else 0)"

text \<open>The rotation index at a counter value, before the counter has wrapped for the first time.\<close>

definition wsOf :: "nat \<Rightarrow> int" where
  "wsOf c = int ((1 + (c - 1) div 300) mod 5)"

subsection \<open>The run from power-up with calm input\<close>

text \<open>
  The state \<open>n\<close> ticks after \<open>setup\<close> when every tick gets the input \<open>calm\<close>. No tick of
  this run faults (lemma \<open>run_calmState\<close>), so the first branch is never taken.
\<close>

fun calmState :: "nat \<Rightarrow> state" where
  "calmState 0 = setupState"
| "calmState (Suc n) = (case loop calm (calmState n) of Inl f \<Rightarrow> calmState n | Inr s \<Rightarrow> s)"



declare calmState.simps(2) [simp del]

text \<open>
  Tick \<open>n\<close> of that run finds no sound in progress, the counter at \<open>c\<close> and \<open>L\<close> sounds
  started so far.
\<close>

definition quietAt :: "nat \<Rightarrow> nat \<Rightarrow> nat \<Rightarrow> bool" where
  "quietAt n c L \<longleftrightarrow> quiet (calmState n) \<and> counter (calmState n) = c
     \<and> length (launches (calmState n)) = L"

text \<open>
  The ticks a sound launched at rotation index \<open>w\<close> needs after its launching tick before
  the lights flicker again: two per note or pulse still to start, one for the one that
  sounds.
\<close>

definition launchDrain :: "nat \<Rightarrow> nat" where
  "launchDrain w = (if w = 0 then 59 else if w = 1 then 85 else if w = 2 then 0 else if w = 3 then 29 else 1)"

section \<open>What each function computes\<close>

text \<open>
  Each function of the sketch as one record update, so that later proofs read the fields
  off instead of unfolding the definitions again.
\<close>

lemma table_lengths:
  "length melody = 30" "length melodyDurations = 30" "length melody2 = 43" "length melody2Durations = 43"
  by (simp_all add: melody_def melodyDurations_def melody2_def melody2Durations_def)

lemma chosen_lengths:
  "int (length (chosenNotes s)) = melodyLen s" "int (length (chosenDurations s)) = melodyLen s"
  by (simp_all add: chosenNotes_def chosenDurations_def melodyLen_def table_lengths)

lemma durations_nonzero: "d \<in> set melodyDurations \<union> set melody2Durations \<Longrightarrow> d \<noteq> 0"
  by (auto simp add: melodyDurations_def melody2Durations_def)

lemma noteLength_total: "noteLength d = Inr (noteMillis d)"
  by (simp add: noteLength_def cdiv_def Let_def noteMillis_def)

lemma playNext_ok:
  assumes "0 \<le> curMelodyNote s" "curMelodyNote s < melodyLen s"
  shows "playNextNoteInMelody s =
     Inr (s\<lparr>inMozzi := 1, mozziMode := MOZZI_NOTE,
            trace := Note (chosenNotes s ! nat (curMelodyNote s))
                       (noteMillis (chosenDurations s ! nat (curMelodyNote s))) # trace s,
            curMelodyNote := (if curMelodyNote s + 1 \<ge> melodyLen s then 0 else curMelodyNote s + 1),
            inMelody := (if curMelodyNote s + 1 \<ge> melodyLen s then 0 else inMelody s)\<rparr>)"
  using assms
  by (cases "whichMelody s = 0")
     (simp_all add: playNextNoteInMelody_def melodyLen_def chosenNotes_def chosenDurations_def
      readArray_def table_lengths noteLength_total playNote_def Let_def)

lemma nextWhistle_eq:
  "nextWhistle s =
     s\<lparr>inMozzi := 1, mozziMode := MOZZI_WHISTLE,
       trace := Tone (curWhistle s)
                  (if curWhistle s = WHISTLE_TRITONE then [WHISTLE_A, WHISTLE_B, WHISTLE_C, WHISTLE_D]
                   else [WHISTLE_A])
                  (if curWhistle s = WHISTLE_TRITONE \<or> curWhistle s = WHISTLE_INITIAL then 900 else 0)
                # trace s,
       curWhistle := (if curWhistle s + 1 > WHISTLE_FADE then 0 else curWhistle s + 1),
       inWhistle := (if curWhistle s + 1 > WHISTLE_FADE then 0 else inWhistle s)\<rparr>"
  by (simp add: nextWhistle_def whistle_def Let_def)

lemma chuffNextChuff_eq:
  "chuffNextChuff s =
     s\<lparr>inMozzi := 1, mozziMode := MOZZI_CHUFF,
       trace := Pulse 75 925 ((1000 + chuffDelay s) mod 65536) # trace s,
       chuffDelay := max 50 (chuffDelay s - 150),
       curChuff := (if curChuff s + 1 \<ge> NUM_CHUFFS then 0 else curChuff s + 1),
       inChuffing := (if curChuff s + 1 \<ge> NUM_CHUFFS then 0 else inChuffing s)\<rparr>"
  by (simp add: chuffNextChuff_def chuff_def Let_def max_def)

lemma bumpCounter_eq:
  "bumpCounter s = s\<lparr>counter := (if counter s \<ge> 32000 then 0 else counter s + 1)\<rparr>"
  by (simp add: bumpCounter_def Let_def)

lemma trainLights_write:
  "\<exists>r g b. trainLights rn s = setPixelColor (int (rn 0 mod 3)) r g b s"
  by (auto simp add: trainLights_def random_max_def Let_def)

lemma whistle_three:
  "inWhistle (startWhistle s) = 1"
  "inWhistle (nextWhistle (startWhistle s)) = 1"
  "inWhistle (nextWhistle (nextWhistle (startWhistle s))) = 0"
  "stagesPlayed (nextWhistle (nextWhistle (startWhistle s)))
     = stagesPlayed s @ [WHISTLE_INITIAL, WHISTLE_TRITONE, WHISTLE_FADE]"
  by (simp_all add: startWhistle_def resetWhistle_def nextWhistle_eq stagesPlayed_def)


section \<open>Pulse sequencer\<close>

text \<open>
  Claim C6. After \<open>startChuffing\<close> has reset the sequencer to the initial delay
  \<open>CHUFF_DELAY = 1100\<close>, the delay after \<open>k\<close> pulses (\<open>k\<close> calls of \<open>chuffNextChuff\<close>) is
  \<open>max 50 (1100 - 150 * k)\<close>, for every \<open>k\<close>: 1100 after none, 50 after 7, 50 after 10.
\<close>

theorem pulse_delay_after_k:
  "chuffDelay ((chuffNextChuff ^^ k) (resetChuffing s)) = max 50 (CHUFF_DELAY - 150 * int k)"
proof (induction k)
  case 0 show ?case by (simp add: resetChuffing_def)
next
  case (Suc k) then show ?case by (simp add: chuffNextChuff_eq max_def)
qed


section \<open>Tone sequencer\<close>

text \<open>
  Claim C3, as the code has it. A launch of the whistle plays exactly three stages,
  \<open>WHISTLE_INITIAL\<close>, \<open>WHISTLE_TRITONE\<close>, \<open>WHISTLE_FADE\<close>, in that order: \<open>startWhistle\<close> plays
  the first, the next two calls of \<open>nextWhistle\<close> the others, \<open>inWhistle\<close> is 1 after the
  first two and 0 after the third, so that stepping while \<open>inWhistle\<close> is 1 stops there
  whenever two or more steps are allowed. This holds from every state, hence for every
  launch however many came before. The stage \<open>WHISTLE_DUD\<close> is never played.
\<close>

theorem whistle_stage_sequence:
  "whistleToEnd (Suc (Suc n)) (startWhistle s) = Some (nextWhistle (nextWhistle (startWhistle s)))
   \<and> stagesPlayed (nextWhistle (nextWhistle (startWhistle s)))
       = stagesPlayed s @ [WHISTLE_INITIAL, WHISTLE_TRITONE, WHISTLE_FADE]
   \<and> inWhistle (startWhistle s) = 1
   \<and> inWhistle (nextWhistle (startWhistle s)) = 1
   \<and> inWhistle (nextWhistle (nextWhistle (startWhistle s))) = 0"
proof -
  have "whistleToEnd (Suc (Suc n)) (startWhistle s) = Some (nextWhistle (nextWhistle (startWhistle s)))"
    using whistle_three(1-3) [of s] by (cases n) simp_all
  then show ?thesis using whistle_three [of s] by simp
qed


text \<open>
  Claim C3 as stated, with four stages ending in the silent stage \<open>WHISTLE_DUD\<close>, fails
  for the first launch from the initial state.
\<close>

theorem whistle_four_stages_counterexample:
  "map_option stagesPlayed (whistleToEnd 10 (startWhistle initial))
     = Some [WHISTLE_INITIAL, WHISTLE_TRITONE, WHISTLE_FADE]
   \<and> map_option stagesPlayed (whistleToEnd 10 (startWhistle initial))
     \<noteq> Some [WHISTLE_INITIAL, WHISTLE_TRITONE, WHISTLE_FADE, WHISTLE_DUD]"
proof -
  have "whistleToEnd 10 (startWhistle initial) = Some (nextWhistle (nextWhistle (startWhistle initial)))"
    using whistle_three(1-3) [of initial] by (simp add: eval_nat_numeral)
  moreover have "stagesPlayed initial = []" by (simp add: stagesPlayed_def initial_def)
  ultimately show ?thesis using whistle_three(4) [of initial] by simp
qed


section \<open>Melody player\<close>

lemma resetMelody_fields:
  "inMelody (resetMelody s) = 1" "curMelodyNote (resetMelody s) = 0"
  "whichMelody (resetMelody s) = (if whichSound s > 0 then 1 else whichSound s)"
  by (simp_all add: resetMelody_def Let_def)

lemma playNotes_run:
  assumes "0 \<le> curMelodyNote s" "curMelodyNote s + int k \<le> melodyLen s" "inMelody s = 1"
  shows "\<exists>t. playNotes k s = Inr t \<and> whichMelody t = whichMelody s
           \<and> inMelody t = (if k \<noteq> 0 \<and> curMelodyNote s + int k = melodyLen s then 0 else 1)
           \<and> curMelodyNote t = (if k \<noteq> 0 \<and> curMelodyNote s + int k = melodyLen s then 0
                                 else curMelodyNote s + int k)"
  using assms
proof (induction k arbitrary: s)
  case 0
  then show ?case by simp
next
  case (Suc k)
  let ?s1 = "s\<lparr>inMozzi := 1, mozziMode := MOZZI_NOTE,
            trace := Note (chosenNotes s ! nat (curMelodyNote s))
                       (noteMillis (chosenDurations s ! nat (curMelodyNote s))) # trace s,
            curMelodyNote := (if curMelodyNote s + 1 \<ge> melodyLen s then 0 else curMelodyNote s + 1),
            inMelody := (if curMelodyNote s + 1 \<ge> melodyLen s then 0 else inMelody s)\<rparr>"
  from Suc.prems have lt: "curMelodyNote s < melodyLen s" by simp
  have step: "playNextNoteInMelody s = Inr ?s1"
    using playNext_ok [OF Suc.prems(1) lt] .
  have len: "melodyLen ?s1 = melodyLen s" by (simp add: melodyLen_def)
  show ?case
  proof (cases "k = 0")
    case True
    with step Suc.prems show ?thesis by (simp add: melodyLen_def)
  next
    case False
    with Suc.prems have more: "curMelodyNote s + 1 < melodyLen s" by simp
    then have s1: "curMelodyNote ?s1 = curMelodyNote s + 1" "inMelody ?s1 = 1"
      using Suc.prems(3) by simp_all
    have "\<exists>t. playNotes k ?s1 = Inr t \<and> whichMelody t = whichMelody ?s1
           \<and> inMelody t = (if k \<noteq> 0 \<and> curMelodyNote ?s1 + int k = melodyLen ?s1 then 0 else 1)
           \<and> curMelodyNote t = (if k \<noteq> 0 \<and> curMelodyNote ?s1 + int k = melodyLen ?s1 then 0
                                 else curMelodyNote ?s1 + int k)"
    proof (rule Suc.IH)
      show "0 \<le> curMelodyNote ?s1" using Suc.prems(1) more by simp
      show "curMelodyNote ?s1 + int k \<le> melodyLen ?s1" using Suc.prems(2) more by (simp add: melodyLen_def)
      show "inMelody ?s1 = 1" by (rule s1(2))
    qed
    then obtain t where t: "playNotes k ?s1 = Inr t" "whichMelody t = whichMelody ?s1"
      "inMelody t = (if k \<noteq> 0 \<and> curMelodyNote ?s1 + int k = melodyLen ?s1 then 0 else 1)"
      "curMelodyNote t = (if k \<noteq> 0 \<and> curMelodyNote ?s1 + int k = melodyLen ?s1 then 0
                                 else curMelodyNote ?s1 + int k)"
      by blast
    have "playNotes (Suc k) s = Inr t" using step t(1) by simp
    moreover have "whichMelody t = whichMelody s" using t(2) by simp
    moreover have "inMelody t = (if curMelodyNote s + int (Suc k) = melodyLen s then 0 else 1)"
      using t(3) False more by (simp add: melodyLen_def add.assoc)
    moreover have "curMelodyNote t = (if curMelodyNote s + int (Suc k) = melodyLen s then 0
                                 else curMelodyNote s + int (Suc k))"
      using t(4) False more by (simp add: melodyLen_def add.assoc)
    ultimately show ?thesis by simp
  qed
qed

lemma chosen_code_nonzero:
  assumes "0 \<le> curMelodyNote s" "curMelodyNote s < int (length (chosenNotes s))"
  shows "chosenDurations s ! nat (curMelodyNote s) \<noteq> 0"
proof -
  from assms have "nat (curMelodyNote s) < length (chosenDurations s)"
    using chosen_lengths [of s] by simp
  then have "chosenDurations s ! nat (curMelodyNote s) \<in> set (chosenDurations s)"
    by (rule nth_mem)
  then have "chosenDurations s ! nat (curMelodyNote s) \<in> set melodyDurations \<union> set melody2Durations"
    by (simp add: chosenDurations_def split: if_splits)
  then show ?thesis by (rule durations_nonzero)
qed

text \<open>
  Claim C7. \<open>startMelody\<close> is its assignments (\<open>resetMelody\<close>) followed by the first step.
  With \<open>L\<close> the length of the note table chosen at the launch, \<open>inMelody\<close> is 1 after the
  launch's assignments, still 1 after each of the first \<open>L - 1\<close> steps, and 0 after the
  \<open>L\<close>-th; none of these steps faults.
\<close>

theorem melody_active_until_last_note:
  assumes "1 \<le> k" "k \<le> length (chosenNotes (resetMelody s))"
  shows "startMelody s = playNotes 1 (resetMelody s)
     \<and> inMelody (resetMelody s) = 1
     \<and> (\<exists>t. playNotes k (resetMelody s) = Inr t
            \<and> inMelody t = (if k < length (chosenNotes (resetMelody s)) then 1 else 0))"
proof -
  let ?r = "resetMelody s"
  have L: "int (length (chosenNotes ?r)) = melodyLen ?r" by (rule chosen_lengths)
  have first: "startMelody s = playNotes 1 ?r"
    by (simp add: startMelody_def split: sum.split)
  have "\<exists>t. playNotes k ?r = Inr t \<and> whichMelody t = whichMelody ?r
           \<and> inMelody t = (if k \<noteq> 0 \<and> curMelodyNote ?r + int k = melodyLen ?r then 0 else 1)
           \<and> curMelodyNote t = (if k \<noteq> 0 \<and> curMelodyNote ?r + int k = melodyLen ?r then 0
                                 else curMelodyNote ?r + int k)"
  proof (rule playNotes_run)
    show "0 \<le> curMelodyNote ?r" by (simp add: resetMelody_fields)
    show "curMelodyNote ?r + int k \<le> melodyLen ?r" using assms(2) L by (simp add: resetMelody_fields)
    show "inMelody ?r = 1" by (simp add: resetMelody_fields)
  qed
  then obtain t where t: "playNotes k ?r = Inr t"
     "inMelody t = (if k \<noteq> 0 \<and> curMelodyNote ?r + int k = melodyLen ?r then 0 else 1)"
    by blast
  have "inMelody t = (if k < length (chosenNotes ?r) then 1 else 0)"
    using t(2) assms L by (simp add: resetMelody_fields)
  with first t(1) show ?thesis by (simp add: resetMelody_fields)
qed


theorem melody_active_until_last_note_witness:
  "(1::nat) \<le> 30 \<and> 30 \<le> length (chosenNotes (resetMelody initial))
   \<and> (\<exists>t. playNotes 30 (resetMelody initial) = Inr t \<and> inMelody t = 0)"
proof -
  have len: "length (chosenNotes (resetMelody initial)) = 30"
    by (simp add: chosenNotes_def resetMelody_def initial_def table_lengths Let_def)
  then have h: "30 \<le> length (chosenNotes (resetMelody initial))" by simp
  have "(1::nat) \<le> 30" by simp
  from melody_active_until_last_note [OF this h] h show ?thesis by (simp add: len)
qed

text \<open>
  Claim C8. For every note index inside the chosen table, a step succeeds and hands the
  synthesis the pitch at that index of the chosen note table, for \<open>1024 / d\<close> when the
  duration code \<open>d\<close> at that index is positive and for \<open>(1024 * 3) / (|d| * 2)\<close> when it is
  negative (no code in the tables is 0); the step leaves \<open>whichMelody\<close>, and with it the
  choice of the tables, as the launch set it.
\<close>

theorem note_rendered_for_converted_length:
  assumes "0 \<le> curMelodyNote s" "curMelodyNote s < int (length (chosenNotes s))"
  shows "\<exists>s1. playNextNoteInMelody s = Inr s1
     \<and> trace s1 =
         Note (chosenNotes s ! nat (curMelodyNote s))
              (if 0 < chosenDurations s ! nat (curMelodyNote s)
               then 1024 div (chosenDurations s ! nat (curMelodyNote s))
               else (1024 * 3) div (\<bar>chosenDurations s ! nat (curMelodyNote s)\<bar> * 2)) # trace s
     \<and> whichMelody s1 = whichMelody s
     \<and> chosenNotes s1 = chosenNotes s \<and> chosenDurations s1 = chosenDurations s"
proof -
  from assms(2) have lt: "curMelodyNote s < melodyLen s" using chosen_lengths(1) [of s] by simp
  have nz: "chosenDurations s ! nat (curMelodyNote s) \<noteq> 0" using assms by (rule chosen_code_nonzero)
  show ?thesis
    using nz by (simp add: playNext_ok [OF assms(1) lt] noteMillis_def chosenNotes_def chosenDurations_def)
qed


theorem note_rendered_for_converted_length_witness:
  "0 \<le> curMelodyNote (resetMelody initial)
   \<and> curMelodyNote (resetMelody initial) < int (length (chosenNotes (resetMelody initial)))
   \<and> (\<exists>s1. playNextNoteInMelody (resetMelody initial) = Inr s1
        \<and> trace s1 = [Note NOTE_B4 256, Started Melody])"
proof -
  have f: "curMelodyNote (resetMelody initial) = 0" "whichMelody (resetMelody initial) = 0"
    "trace (resetMelody initial) = [Started Melody]"
    by (simp_all add: resetMelody_def initial_def Let_def)
  have h1: "0 \<le> curMelodyNote (resetMelody initial)" by (simp add: f)
  have h2: "curMelodyNote (resetMelody initial) < int (length (chosenNotes (resetMelody initial)))"
    by (simp add: f chosenNotes_def table_lengths)
  from note_rendered_for_converted_length [OF h1 h2] h1 h2 show ?thesis
    by (auto simp add: f chosenNotes_def chosenDurations_def melody_def melodyDurations_def)
qed

text \<open>
  Claim C10. A duration code 0 is converted as the code 1 is; the conversion of a code
  divides by zero for no code whose negation and doubling fit the 16 bits of \<open>int\<close>; and a
  step at an index inside the chosen table returns a state, never a fault.
\<close>

theorem zero_code_never_divides_by_zero:
  "noteLength 0 = noteLength 1
   \<and> (- 16384 < d \<and> d < 32768 \<longrightarrow> (\<exists>len. noteLength d = Inr len))
   \<and> (0 \<le> curMelodyNote s \<and> curMelodyNote s < int (length (chosenDurations s))
        \<longrightarrow> (\<exists>s1. playNextNoteInMelody s = Inr s1))"
proof -
  have "noteLength 0 = noteLength 1" by (simp add: noteLength_total noteMillis_def)
  moreover have "\<exists>len. noteLength d = Inr len" by (simp add: noteLength_total)
  moreover have "\<exists>s1. playNextNoteInMelody s = Inr s1"
    if "0 \<le> curMelodyNote s" "curMelodyNote s < int (length (chosenDurations s))"
  proof -
    from that(2) have "curMelodyNote s < melodyLen s" using chosen_lengths(2) [of s] by simp
    from playNext_ok [OF that(1) this] show ?thesis by simp
  qed
  ultimately show ?thesis by blast
qed


theorem zero_code_never_divides_by_zero_witness:
  "noteLength 0 = Inr 1024
   \<and> 0 \<le> curMelodyNote initial \<and> curMelodyNote initial < int (length (chosenDurations initial))
   \<and> (\<exists>s1. playNextNoteInMelody initial = Inr s1)"
proof -
  have h: "0 \<le> curMelodyNote initial \<and> curMelodyNote initial < int (length (chosenDurations initial))"
    by (simp add: initial_def chosenDurations_def table_lengths)
  have "noteLength 1 = Inr 1024" by (simp add: noteLength_def cdiv_def)
  with zero_code_never_divides_by_zero [of 0 initial] h show ?thesis by simp
qed

section \<open>Lighting animator\<close>

lemma setPixelColor_eq:
  assumes "n < length (pixels s)" "n < 3"
  shows "setPixelColor (int n) r g b s =
     s\<lparr>pixels := (pixels s)[n := (r mod 256, g mod 256, b mod 256)],
       trace := Pixel (int n) (r mod 256) (g mod 256) (b mod 256) # trace s\<rparr>"
  using assms by (simp add: setPixelColor_def)

text \<open>
  Claim C9. On a strip of three pixels, \<open>trainLights\<close> changes the state by exactly one
  \<open>setPixelColor\<close>: the zone \<open>random(3)\<close> selects gets a color, and every other entry of the
  pixel buffer is what it was.
\<close>

theorem one_zone_written_per_frame:
  assumes "length (pixels s) = 3"
  shows "\<exists>r g b. trainLights rn s =
       s\<lparr>pixels := (pixels s)[rn 0 mod 3 := (r, g, b)],
         trace := Pixel (int (rn 0 mod 3)) r g b # trace s\<rparr>
     \<and> (\<forall>i. i \<noteq> rn 0 mod 3 \<longrightarrow> pixels (trainLights rn s) ! i = pixels s ! i)"
proof -
  obtain r g b where w: "trainLights rn s = setPixelColor (int (rn 0 mod 3)) r g b s"
    using trainLights_write by blast
  have "rn 0 mod 3 < length (pixels s)" "rn 0 mod 3 < 3" using assms by simp_all
  from setPixelColor_eq [OF this] w
  have "trainLights rn s =
       s\<lparr>pixels := (pixels s)[rn 0 mod 3 := (r mod 256, g mod 256, b mod 256)],
         trace := Pixel (int (rn 0 mod 3)) (r mod 256) (g mod 256) (b mod 256) # trace s\<rparr>"
    by simp
  then show ?thesis by (intro exI [of _ "r mod 256"] exI [of _ "g mod 256"] exI [of _ "b mod 256"]) simp
qed


theorem one_zone_written_per_frame_witness:
  "length (pixels initial) = 3
   \<and> trainLights (\<lambda>i. [1, 0, 4, 20, 7] ! i) initial =
       initial\<lparr>pixels := [(0, 0, 0), (170, 7, 0), (0, 0, 0)], trace := [Pixel 1 170 7 0]\<rparr>"
proof -
  have h: "length (pixels initial) = 3" by (simp add: initial_def)
  have "trainLights (\<lambda>i. [1, 0, 4, 20, 7] ! i) initial =
       initial\<lparr>pixels := [(0, 0, 0), (170, 7, 0), (0, 0, 0)], trace := [Pixel 1 170 7 0]\<rparr>"
    by (simp add: trainLights_def random_max_def setPixelColor_def initial_def Let_def)
  with one_zone_written_per_frame [OF h, of "\<lambda>i. [1, 0, 4, 20, 7] ! i"] h show ?thesis by simp
qed


section \<open>The control loop\<close>

subsection \<open>The branches of \<open>loop\<close> and the invariant\<close>

lemma startMelody_ok:
  "startMelody s =
     Inr (s\<lparr>inMelody := 1, curMelodyNote := 1,
            whichMelody := (if whichSound s > 0 then 1 else whichSound s),
            inMozzi := 1, mozziMode := MOZZI_NOTE,
            trace := Note (chosenNotes (resetMelody s) ! 0) (noteMillis (chosenDurations (resetMelody s) ! 0))
                       # Started Melody # trace s\<rparr>)"
proof -
  have "0 \<le> curMelodyNote (resetMelody s)" "curMelodyNote (resetMelody s) < melodyLen (resetMelody s)"
    by (simp_all add: resetMelody_def melodyLen_def Let_def)
  from playNext_ok [OF this] show ?thesis
    by (simp add: startMelody_def) (simp add: resetMelody_def melodyLen_def Let_def)
qed

lemma setup_board_eq: "setup_board = Inr setupState"
  by (simp add: setup_board_def startMelody_ok cutTheLights_def setPixelColor_def initial_def
      setupState_def Let_def resetMelody_def chosenNotes_def chosenDurations_def melody_def
      melodyDurations_def noteMillis_def)

lemma inv_setupState: "inv setupState"
  by (simp add: inv_def setupState_def melodyLen_def)

lemma setPixelColor_fields [simp]:
  "gain (setPixelColor n r g b s) = gain s"
  "inMozzi (setPixelColor n r g b s) = inMozzi s"
  "mozziMode (setPixelColor n r g b s) = mozziMode s"
  "inMelody (setPixelColor n r g b s) = inMelody s"
  "curMelodyNote (setPixelColor n r g b s) = curMelodyNote s"
  "whichMelody (setPixelColor n r g b s) = whichMelody s"
  "inChuffing (setPixelColor n r g b s) = inChuffing s"
  "curChuff (setPixelColor n r g b s) = curChuff s"
  "chuffDelay (setPixelColor n r g b s) = chuffDelay s"
  "inWhistle (setPixelColor n r g b s) = inWhistle s"
  "curWhistle (setPixelColor n r g b s) = curWhistle s"
  "whichSound (setPixelColor n r g b s) = whichSound s"
  "counter (setPixelColor n r g b s) = counter s"
  "length (pixels (setPixelColor n r g b s)) = length (pixels s)"
  "started (trace (setPixelColor n r g b s)) = started (trace s)"
  by (simp_all add: setPixelColor_def)

lemma trainLights_fields [simp]:
  "gain (trainLights rn s) = gain s"
  "inMozzi (trainLights rn s) = inMozzi s"
  "mozziMode (trainLights rn s) = mozziMode s"
  "inMelody (trainLights rn s) = inMelody s"
  "curMelodyNote (trainLights rn s) = curMelodyNote s"
  "whichMelody (trainLights rn s) = whichMelody s"
  "inChuffing (trainLights rn s) = inChuffing s"
  "curChuff (trainLights rn s) = curChuff s"
  "chuffDelay (trainLights rn s) = chuffDelay s"
  "inWhistle (trainLights rn s) = inWhistle s"
  "curWhistle (trainLights rn s) = curWhistle s"
  "whichSound (trainLights rn s) = whichSound s"
  "counter (trainLights rn s) = counter s"
  "length (pixels (trainLights rn s)) = length (pixels s)"
  "started (trace (trainLights rn s)) = started (trace s)"
  using trainLights_write [of rn s] by auto

lemma inv_trainLights: "inv (trainLights rn s) = inv s"
  by (simp add: inv_def melodyLen_def)

lemma inv_audioHook: "inv s \<Longrightarrow> inv (audioHook h s)"
  by (cases h) (simp_all add: audioHook_def updateControl_def inv_def melodyLen_def)

lemma inv_playNext:
  assumes "inv s" "inMelody s = 1" "playNextNoteInMelody s = Inr s1"
  shows "inv s1"
proof -
  from assms(1) have b: "0 \<le> curMelodyNote s" "curMelodyNote s < melodyLen s"
    by (simp_all add: inv_def)
  from assms(3) have "s1 = s\<lparr>inMozzi := 1, mozziMode := MOZZI_NOTE,
            trace := Note (chosenNotes s ! nat (curMelodyNote s))
                       (noteMillis (chosenDurations s ! nat (curMelodyNote s))) # trace s,
            curMelodyNote := (if curMelodyNote s + 1 \<ge> melodyLen s then 0 else curMelodyNote s + 1),
            inMelody := (if curMelodyNote s + 1 \<ge> melodyLen s then 0 else inMelody s)\<rparr>"
    by (simp add: playNext_ok [OF b])
  with assms(1,2) show ?thesis
    by (simp add: inv_def melodyLen_def)
qed

lemma inv_chuffNext:
  assumes "inv s" "inChuffing s = 1"
  shows "inv (chuffNextChuff s)"
  using assms by (simp add: inv_def melodyLen_def chuffNextChuff_eq)

lemma inv_bump_quiet:
  assumes "inv s" "inWhistle s = 0"
  shows "inv (bumpCounter s)"
  using assms by (simp add: inv_def melodyLen_def bumpCounter_eq)

lemma launchSound_eq:
  "launchSound s =
     (if whichSound s < 2 then
        Inr (s\<lparr>inMelody := 1, curMelodyNote := 1,
            whichMelody := (if whichSound s > 0 then 1 else whichSound s),
            inMozzi := 1, mozziMode := MOZZI_NOTE,
            trace := Note (chosenNotes (resetMelody s) ! 0) (noteMillis (chosenDurations (resetMelody s) ! 0))
                       # Started Melody # trace s,
            whichSound := whichSound s + 1\<rparr>)
      else if whichSound s = 2 then
        Inr (s\<lparr>trace := rev (map Say announcementWords) @ Started Announcement # trace s,
               whichSound := 3\<rparr>)
      else if whichSound s = 3 then
        Inr (s\<lparr>inChuffing := 1, curChuff := 1, chuffDelay := 950,
               inMozzi := 1, mozziMode := MOZZI_CHUFF,
               trace := Pulse 75 925 2100 # Started PulseSequence # trace s,
               whichSound := 4\<rparr>)
      else
        Inr (s\<lparr>inWhistle := 1, curWhistle := 1, inMozzi := 1, mozziMode := MOZZI_WHISTLE,
               trace := Tone WHISTLE_INITIAL [WHISTLE_A] WHISTLE_INITIAL_DURATION
                          # Started ToneSequence # trace s,
               whichSound := (if whichSound s + 1 > 4 then 0 else whichSound s + 1)\<rparr>))"
  by (simp add: launchSound_def startMelody_ok stationAnnouncement_def startChuffing_def
      resetChuffing_def chuffNextChuff_eq startWhistle_def resetWhistle_def nextWhistle_eq Let_def)

lemma inv_launch:
  assumes "inv s" "inMelody s = 0" "inChuffing s = 0" "inWhistle s = 0"
    "counter s mod FLICKERS_PER_SOUND = 0" "launchSound s = Inr s1"
  shows "inv (bumpCounter s1)"
proof -
  have "counter s \<le> 32000" using assms(1) by (simp add: inv_def)
  moreover have "counter s \<noteq> 32000" using assms(5) by auto
  ultimately have c: "counter s < 32000" by simp
  have c1: "(counter s + 1) mod 300 = 1" using assms(5) by (simp add: mod_Suc)
  have "0 \<le> whichSound s" "whichSound s \<le> 4" using assms(1) by (simp_all add: inv_def)
  then consider "whichSound s < 2" | "whichSound s = 2" | "whichSound s = 3" | "whichSound s = 4"
    by linarith
  then show ?thesis
  proof cases
    case 1
    with assms(6) have "s1 = s\<lparr>inMelody := 1, curMelodyNote := 1,
            whichMelody := (if whichSound s > 0 then 1 else whichSound s),
            inMozzi := 1, mozziMode := MOZZI_NOTE,
            trace := Note (chosenNotes (resetMelody s) ! 0) (noteMillis (chosenDurations (resetMelody s) ! 0))
                       # Started Melody # trace s,
            whichSound := whichSound s + 1\<rparr>"
      by (simp add: launchSound_eq)
    with assms(1-5) c c1 1 show ?thesis
      by (simp add: inv_def melodyLen_def bumpCounter_eq)
  next
    case 2
    with assms(6) have "s1 = s\<lparr>trace := rev (map Say announcementWords) @ Started Announcement # trace s,
               whichSound := 3\<rparr>"
      by (simp add: launchSound_eq)
    with assms(1-5) c c1 2 show ?thesis
      by (simp add: inv_def melodyLen_def bumpCounter_eq)
  next
    case 3
    with assms(6) have "s1 = s\<lparr>inChuffing := 1, curChuff := 1, chuffDelay := 950,
               inMozzi := 1, mozziMode := MOZZI_CHUFF,
               trace := Pulse 75 925 2100 # Started PulseSequence # trace s,
               whichSound := 4\<rparr>"
      by (simp add: launchSound_eq)
    with assms(1-5) c c1 3 show ?thesis
      by (simp add: inv_def melodyLen_def bumpCounter_eq)
  next
    case 4
    with assms(6) have "s1 = s\<lparr>inWhistle := 1, curWhistle := 1, inMozzi := 1, mozziMode := MOZZI_WHISTLE,
               trace := Tone WHISTLE_INITIAL [WHISTLE_A] WHISTLE_INITIAL_DURATION
                          # Started ToneSequence # trace s,
               whichSound := 0\<rparr>"
      by (simp add: launchSound_eq)
    with assms(1-5) c c1 4 show ?thesis
      by (simp add: inv_def melodyLen_def bumpCounter_eq)
  qed
qed

lemma inv_whistle_step:
  assumes "inv s" "inMelody s = 0" "inChuffing s = 0" "inWhistle s = 1"
  shows "inv (bumpCounter (nextWhistle s))"
proof -
  from assms have w0: "1 \<le> curWhistle s" "curWhistle s \<le> 2" "int (counter s mod 300) = curWhistle s"
    "counter s \<le> 32000"
    by (simp_all add: inv_def)
  then have w: "curWhistle s = 1 \<or> curWhistle s = 2" by linarith
  have "counter s \<noteq> 32000"
  proof
    assume "counter s = 32000"
    with w0(2,3) show False by simp
  qed
  with w0(4) have c: "counter s < 32000" by simp
  have c2: "(counter s + 1) mod 300 = 2" if "curWhistle s = 1"
  proof -
    from that w0(3) have "counter s mod 300 = 1" by simp
    then show ?thesis by (simp add: mod_Suc)
  qed
  from w show ?thesis
  proof
    assume "curWhistle s = 1"
    with c c2 assms show ?thesis
      by (simp add: nextWhistle_eq bumpCounter_eq inv_def melodyLen_def)
  next
    assume "curWhistle s = 2"
    with c c2 assms show ?thesis
      by (simp add: nextWhistle_eq bumpCounter_eq inv_def melodyLen_def)
  qed
qed

lemma inv_bump_trainLights: "inv (bumpCounter (trainLights rn t)) = inv (bumpCounter t)"
  by (simp add: inv_def bumpCounter_eq melodyLen_def)

lemma loop_hook: "inMozzi s = 1 \<Longrightarrow> loop e s = Inr (audioHook (hook e) s)"
  by (simp add: loop_def)

lemma loop_melody: "inMozzi s \<noteq> 1 \<Longrightarrow> inMelody s = 1 \<Longrightarrow> loop e s = playNextNoteInMelody s"
  by (simp add: loop_def)

lemma loop_chuff:
  "inMozzi s \<noteq> 1 \<Longrightarrow> inMelody s \<noteq> 1 \<Longrightarrow> inChuffing s = 1 \<Longrightarrow> loop e s = Inr (chuffNextChuff s)"
  by (simp add: loop_def)

lemma loop_whistle:
  "inMozzi s \<noteq> 1 \<Longrightarrow> inMelody s \<noteq> 1 \<Longrightarrow> inChuffing s \<noteq> 1 \<Longrightarrow> inWhistle s = 1
   \<Longrightarrow> counter s mod 300 \<noteq> 0
   \<Longrightarrow> loop e s = Inr (bumpCounter (trainLights (rnd e) (nextWhistle s)))"
  by (simp add: loop_def nextWhistle_eq)

lemma loop_idle:
  "inMozzi s \<noteq> 1 \<Longrightarrow> inMelody s \<noteq> 1 \<Longrightarrow> inChuffing s \<noteq> 1 \<Longrightarrow> inWhistle s \<noteq> 1
   \<Longrightarrow> counter s mod 300 \<noteq> 0
   \<Longrightarrow> loop e s = Inr (bumpCounter (trainLights (rnd e) s))"
  by (simp add: loop_def)

lemma loop_launch:
  "inMozzi s \<noteq> 1 \<Longrightarrow> inMelody s \<noteq> 1 \<Longrightarrow> inChuffing s \<noteq> 1 \<Longrightarrow> inWhistle s \<noteq> 1
   \<Longrightarrow> counter s mod 300 = 0
   \<Longrightarrow> loop e s = (case launchSound (trainLights (rnd e) s) of
                      Inl f \<Rightarrow> Inl f | Inr s3 \<Rightarrow> Inr (bumpCounter s3))"
  by (simp add: loop_def)

lemma launchSound_total: "\<exists>s1. launchSound t = Inr s1"
  by (cases "whichSound t < 2"; cases "whichSound t = 2"; cases "whichSound t = 3")
     (simp_all add: launchSound_eq)

lemma loop_total:
  assumes "inv s"
  shows "\<exists>s1. loop e s = Inr s1"
proof -
  from assms have b: "0 \<le> curMelodyNote s" "curMelodyNote s < melodyLen s"
    by (simp_all add: inv_def)
  let ?s2 = "trainLights (rnd e) (if inWhistle s = 1 then nextWhistle s else s)"
  obtain s3 where s3: "launchSound ?s2 = Inr s3"
    using launchSound_total by blast
  consider (hook) "inMozzi s = 1"
    | (melody) "inMozzi s \<noteq> 1" "inMelody s = 1"
    | (chuff) "inMozzi s \<noteq> 1" "inMelody s \<noteq> 1" "inChuffing s = 1"
    | (lights) "inMozzi s \<noteq> 1" "inMelody s \<noteq> 1" "inChuffing s \<noteq> 1"
    by blast
  then show ?thesis
  proof cases
    case hook
    then show ?thesis by (simp add: loop_def)
  next
    case melody
    then show ?thesis by (simp add: loop_def playNext_ok [OF b])
  next
    case chuff
    then show ?thesis by (simp add: loop_def)
  next
    case lights
    have "loop e s = (case (if counter ?s2 mod 300 = 0 then launchSound ?s2 else Inr ?s2) of
              Inl f \<Rightarrow> Inl f | Inr s3 \<Rightarrow> Inr (bumpCounter s3))"
      using lights by (simp add: loop_def Let_def)
    then show ?thesis by (cases "counter ?s2 mod 300 = 0") (simp_all add: s3)
  qed
qed


lemma inv_flags:
  assumes "inv s" "inMelody s \<noteq> 1" "inChuffing s \<noteq> 1"
  shows "inMelody s = 0" "inChuffing s = 0"
  using assms by (simp_all add: inv_def)

lemma inv_whistle_counter:
  assumes "inv s" "inWhistle s = 1"
  shows "counter s mod 300 \<noteq> 0"
proof
  assume z: "counter s mod 300 = 0"
  from assms have "1 \<le> curWhistle s" "int (counter s mod 300) = curWhistle s"
    by (simp_all add: inv_def)
  with z show False by simp
qed

lemma inv_loop:
  assumes "inv s" "loop e s = Inr s1"
  shows "inv s1"
proof -
  consider (hook) "inMozzi s = 1"
    | (melody) "inMozzi s \<noteq> 1" "inMelody s = 1"
    | (chuff) "inMozzi s \<noteq> 1" "inMelody s \<noteq> 1" "inChuffing s = 1"
    | (lights) "inMozzi s \<noteq> 1" "inMelody s \<noteq> 1" "inChuffing s \<noteq> 1"
    by blast
  then show ?thesis
  proof cases
    case hook
    with assms(2) have "s1 = audioHook (hook e) s" by (simp add: loop_hook)
    with assms(1) show ?thesis by (simp add: inv_audioHook)
  next
    case melody
    with assms(2) have "playNextNoteInMelody s = Inr s1" by (simp add: loop_melody)
    with assms(1) melody(2) show ?thesis by (rule inv_playNext)
  next
    case chuff
    with assms(2) have "s1 = chuffNextChuff s" by (simp add: loop_chuff)
    with assms(1) chuff(3) show ?thesis by (simp add: inv_chuffNext)
  next
    case lights
    note q = inv_flags [OF assms(1) lights(2,3)]
    show ?thesis
    proof (cases "inWhistle s = 1")
      case True
      have "counter s mod 300 \<noteq> 0" using assms(1) True by (rule inv_whistle_counter)
      with assms(2) have "s1 = bumpCounter (trainLights (rnd e) (nextWhistle s))"
        by (simp add: loop_whistle [OF lights True])
      moreover have "inv (bumpCounter (nextWhistle s))"
        using assms(1) q True by (rule inv_whistle_step)
      ultimately show ?thesis
        by (simp add: inv_bump_trainLights)
    next
      case False
      with assms(1) have w: "inWhistle s = 0" by (simp add: inv_def)
      let ?s2 = "trainLights (rnd e) s"
      have i2: "inv ?s2" using assms(1) by (simp add: inv_trainLights)
      show ?thesis
      proof (cases "counter s mod 300 = 0")
        case True
        obtain s3 where s3: "launchSound ?s2 = Inr s3" using launchSound_total by blast
        with assms(2) have s1: "s1 = bumpCounter s3"
          by (simp add: loop_launch [OF lights False True])
        have "inv (bumpCounter s3)"
          using i2 _ _ _ _ s3 by (rule inv_launch) (simp_all add: q w True)
        with s1 show ?thesis by simp
      next
        case c: False
        with assms(2) have "s1 = bumpCounter ?s2"
          by (simp add: loop_idle [OF lights False c])
        moreover have "inv (bumpCounter ?s2)" using i2 by (rule inv_bump_quiet) (simp add: w)
        ultimately show ?thesis by simp
      qed
    qed
  qed
qed

lemma reachable_inv: "reachable s \<Longrightarrow> inv s"
proof (induction rule: reachable.induct)
  case (after_setup s)
  then show ?case using inv_setupState by (simp add: setup_board_eq)
next
  case (after_loop s e s1)
  then show ?case by (simp add: inv_loop)
qed

lemma audioHook_fields [simp]:
  "trace (audioHook h s) = trace s" "whichSound (audioHook h s) = whichSound s"
  "counter (audioHook h s) = counter s" "pixels (audioHook h s) = pixels s"
  by (cases h; simp add: audioHook_def updateControl_def)+

lemma launch_effect:
  assumes "launchSound t = Inr t1" "0 \<le> whichSound t" "whichSound t \<le> 4"
  shows "started (trace t1) = soundAt (whichSound t) # started (trace t)"
    "whichSound t1 = (whichSound t + 1) mod 5"
proof -
  from assms(2,3) consider "whichSound t < 2" | "whichSound t = 2" | "whichSound t = 3" | "whichSound t = 4"
    by linarith
  then have "started (trace t1) = soundAt (whichSound t) # started (trace t)
      \<and> whichSound t1 = (whichSound t + 1) mod 5"
  proof cases
    case 1
    with assms show ?thesis by (auto simp add: launchSound_eq soundAt_def)
  next
    case 2
    with assms show ?thesis by (auto simp add: launchSound_eq soundAt_def announcementWords_def)
  next
    case 3
    with assms show ?thesis by (auto simp add: launchSound_eq soundAt_def)
  next
    case 4
    with assms show ?thesis by (auto simp add: launchSound_eq soundAt_def)
  qed
  then show "started (trace t1) = soundAt (whichSound t) # started (trace t)"
    "whichSound t1 = (whichSound t + 1) mod 5" by simp_all
qed

text \<open>A tick that is not a launch starts no sound and keeps the rotation index.\<close>

lemma loop_no_launch:
  assumes "inv s" "loop e s = Inr s1"
    "inMozzi s = 1 \<or> inMelody s = 1 \<or> inChuffing s = 1 \<or> counter s mod 300 \<noteq> 0"
  shows "started (trace s1) = started (trace s)" "whichSound s1 = whichSound s"
proof -
  from assms(1) have b: "0 \<le> curMelodyNote s" "curMelodyNote s < melodyLen s"
    by (simp_all add: inv_def)
  consider (hook) "inMozzi s = 1"
    | (melody) "inMozzi s \<noteq> 1" "inMelody s = 1"
    | (chuff) "inMozzi s \<noteq> 1" "inMelody s \<noteq> 1" "inChuffing s = 1"
    | (whistle) "inMozzi s \<noteq> 1" "inMelody s \<noteq> 1" "inChuffing s \<noteq> 1" "inWhistle s = 1"
    | (idle) "inMozzi s \<noteq> 1" "inMelody s \<noteq> 1" "inChuffing s \<noteq> 1" "inWhistle s \<noteq> 1"
    by blast
  then have "started (trace s1) = started (trace s) \<and> whichSound s1 = whichSound s"
  proof cases
    case hook
    with assms(2) show ?thesis by (auto simp add: loop_hook)
  next
    case melody
    with assms(2) show ?thesis by (auto simp add: loop_melody playNext_ok [OF b])
  next
    case chuff
    with assms(2) show ?thesis by (auto simp add: loop_chuff chuffNextChuff_eq)
  next
    case whistle
    have "counter s mod 300 \<noteq> 0" using assms(1) whistle(4) by (rule inv_whistle_counter)
    with assms(2) have "s1 = bumpCounter (trainLights (rnd e) (nextWhistle s))"
      by (simp add: loop_whistle [OF whistle])
    then show ?thesis by (simp add: bumpCounter_eq nextWhistle_eq)
  next
    case idle
    with assms(3) have c: "counter s mod 300 \<noteq> 0" by simp
    with assms(2) have "s1 = bumpCounter (trainLights (rnd e) s)"
      by (simp add: loop_idle [OF idle c])
    then show ?thesis by (simp add: bumpCounter_eq)
  qed
  then show "started (trace s1) = started (trace s)" "whichSound s1 = whichSound s" by simp_all
qed

text \<open>A launching tick starts the sound of the rotation index and advances the index.\<close>

lemma loop_does_launch:
  assumes "inv s" "loop e s = Inr s1"
    "inMozzi s \<noteq> 1" "inMelody s \<noteq> 1" "inChuffing s \<noteq> 1" "counter s mod 300 = 0"
  shows "started (trace s1) = soundAt (whichSound s) # started (trace s)"
    "whichSound s1 = (whichSound s + 1) mod 5" "inWhistle s \<noteq> 1"
proof -
  show w: "inWhistle s \<noteq> 1" using inv_whistle_counter [OF assms(1)] assms(6) by blast
  let ?s2 = "trainLights (rnd e) s"
  obtain s3 where s3: "launchSound ?s2 = Inr s3" using launchSound_total by blast
  with assms(2) have s1: "s1 = bumpCounter s3"
    by (simp add: loop_launch [OF assms(3,4,5) w assms(6)])
  from assms(1) have r: "0 \<le> whichSound ?s2" "whichSound ?s2 \<le> 4" by (simp_all add: inv_def)
  from launch_effect [OF s3 r] s1
  show "started (trace s1) = soundAt (whichSound s) # started (trace s)"
    "whichSound s1 = (whichSound s + 1) mod 5"
    by (simp_all add: bumpCounter_eq)
qed

lemma activeCount_zero:
  "inMelody s \<noteq> 1 \<Longrightarrow> inChuffing s \<noteq> 1 \<Longrightarrow> inWhistle s \<noteq> 1 \<Longrightarrow> activeCount s = 0"
  by (simp add: activeCount_def)

lemma inv_activeCount: "inv s \<Longrightarrow> activeCount s \<le> 1"
  by (auto simp add: inv_def activeCount_def)

lemma reachable_setupState: "reachable setupState"
  using setup_board_eq by (rule after_setup)

lemma reachable_betweenNotes: "reachable betweenNotes"
proof -
  have "loop \<lparr>hook = Control True 0, rnd = (\<lambda>i. 0)\<rparr> setupState = Inr betweenNotes"
    by (simp add: loop_def audioHook_def updateControl_def setupState_def betweenNotes_def)
  with reachable_setupState show ?thesis by (rule after_loop)
qed


lemma mod5_cases:
  "(m::nat) mod 5 = 0 \<or> m mod 5 = 1 \<or> m mod 5 = 2 \<or> m mod 5 = 3 \<or> m mod 5 = 4"
proof -
  have "m mod 5 < 5" by simp
  then show ?thesis by linarith
qed

lemma soundAt_nthLaunch: "soundAt (int (Suc m mod 5)) = nthLaunch (Suc m)"
  using mod5_cases [of m]
  by (elim disjE) (simp_all add: mod_Suc soundAt_def nthLaunch_def loopRotation_def)

lemma next_index: "(int (n mod 5) + 1) mod 5 = int (Suc n mod 5)"
  using mod5_cases [of n] by (elim disjE) (simp_all add: mod_Suc)

lemma rotation_ok_setupState: "rotation_ok setupState"
  by (simp add: rotation_ok_def launches_def setupState_def nthLaunch_def)

lemma rotation_ok_loop:
  assumes "inv s" "rotation_ok s" "loop e s = Inr s1"
  shows "rotation_ok s1"
proof (cases "inMozzi s = 1 \<or> inMelody s = 1 \<or> inChuffing s = 1 \<or> counter s mod 300 \<noteq> 0")
  case True
  from loop_no_launch [OF assms(1,3) True] assms(2) show ?thesis
    by (simp add: rotation_ok_def launches_def)
next
  case False
  then have f: "inMozzi s \<noteq> 1" "inMelody s \<noteq> 1" "inChuffing s \<noteq> 1" "counter s mod 300 = 0"
    by simp_all
  let ?n = "length (launches s)"
  from assms(2) have r: "launches s = map nthLaunch [0..<?n]" "1 \<le> ?n" "whichSound s = int (?n mod 5)"
    by (simp_all add: rotation_ok_def Suc_le_eq)
  from loop_does_launch(1,2) [OF assms(1,3) f]
  have l: "launches s1 = launches s @ [soundAt (whichSound s)]" "whichSound s1 = (whichSound s + 1) mod 5"
    by (simp_all add: launches_def)
  from r(2) obtain m where m: "?n = Suc m" by (cases ?n) simp_all
  have a: "soundAt (whichSound s) = nthLaunch ?n" using r(3) soundAt_nthLaunch [of m] by (simp add: m)
  have "launches s1 = map nthLaunch [0..<?n] @ [nthLaunch ?n]" using l(1) r(1) a by simp
  then have 1: "launches s1 = map nthLaunch [0..<Suc ?n]" by simp
  have 2: "length (launches s1) = Suc ?n" using l(1) by simp
  have 3: "whichSound s1 = int (Suc ?n mod 5)" using l(2) r(3) by (simp add: next_index)
  from 1 2 3 show ?thesis by (simp add: rotation_ok_def)
qed

lemma reachable_rotation: "reachable s \<Longrightarrow> rotation_ok s"
proof (induction rule: reachable.induct)
  case (after_setup s)
  then show ?case using rotation_ok_setupState by (simp add: setup_board_eq)
next
  case (after_loop s e s1)
  from reachable_inv [OF after_loop.hyps(1)] after_loop.IH after_loop.hyps(2)
  show ?case by (rule rotation_ok_loop)
qed


subsection \<open>Mutual exclusion\<close>

text \<open>
  Claim C1, as the code has it. In every reachable state at most one of \<open>inMelody\<close>,
  \<open>inChuffing\<close>, \<open>inWhistle\<close> is 1, and a tick that starts a sound (the announcement, which
  runs to its end inside that tick, included) starts it from a state in which none of them
  is 1. The flag \<open>inMozzi\<close> is not part of the statement: it is 1 while one note, pulse or
  tone sounds, and is 0 between two notes of a melody that is still active.
\<close>

theorem at_most_one_sound_active:
  assumes "reachable s"
  shows "activeCount s \<le> 1
     \<and> (\<forall>e s1. loop e s = Inr s1 \<and> launches s1 \<noteq> launches s \<longrightarrow> activeCount s = 0)"
proof -
  have i: "inv s" using assms by (rule reachable_inv)
  have "activeCount s = 0" if l: "loop e s = Inr s1" and d: "launches s1 \<noteq> launches s" for e s1
  proof -
    have n: "\<not> (inMozzi s = 1 \<or> inMelody s = 1 \<or> inChuffing s = 1 \<or> counter s mod 300 \<noteq> 0)"
    proof
      assume "inMozzi s = 1 \<or> inMelody s = 1 \<or> inChuffing s = 1 \<or> counter s mod 300 \<noteq> 0"
      from loop_no_launch(1) [OF i l this] d show False by (simp add: launches_def)
    qed
    then have "inWhistle s \<noteq> 1" using loop_does_launch(3) [OF i l] by blast
    with n show ?thesis by (simp add: activeCount_zero)
  qed
  with inv_activeCount [OF i] show ?thesis by blast
qed


theorem at_most_one_sound_active_witness:
  "reachable setupState \<and> activeCount setupState \<le> 1"
  using at_most_one_sound_active [OF reachable_setupState] reachable_setupState
  by (simp add: activeCount_def setupState_def)


text \<open>
  Claim C1 as stated, with \<open>inMozzi\<close> equivalent to exactly one active sub-machine, fails in
  the reachable state between the first and the second note of the startup melody.
\<close>

theorem busy_iff_one_active_counterexample:
  "reachable betweenNotes \<and> inMozzi betweenNotes = 0 \<and> activeCount betweenNotes = 1
   \<and> \<not> (inMozzi betweenNotes = 1 \<longleftrightarrow> activeCount betweenNotes = 1)"
  using reachable_betweenNotes by (simp add: betweenNotes_def setupState_def activeCount_def)

subsection \<open>Every sound ends, and every counter value is reached\<close>

lemma kept_refl: "kept s s"
  by (simp add: kept_def)

lemma kept_trans: "kept s s1 \<Longrightarrow> kept s1 s2 \<Longrightarrow> kept s s2"
  by (simp add: kept_def)

lemma hook_tick: "inMozzi s = 1 \<Longrightarrow> loop calm s = Inr (s\<lparr>gain := 0, inMozzi := 0\<rparr>)"
  by (simp add: loop_hook calm_def audioHook_def updateControl_def)

lemma drain_step:
  assumes "inv s" "\<not> settled s"
  shows "\<exists>s1. loop calm s = Inr s1 \<and> kept s s1 \<and> drainMeasure s1 < drainMeasure s"
proof -
  from assms(1) have b: "0 \<le> curMelodyNote s" "curMelodyNote s < melodyLen s"
    and f: "inMozzi s = 0 \<or> inMozzi s = 1" "inMelody s = 0 \<or> inMelody s = 1"
      "inChuffing s = 0 \<or> inChuffing s = 1" "inMelody s + inChuffing s + inWhistle s \<le> 1"
      "inWhistle s = 0 \<or> inWhistle s = 1"
    and c: "0 \<le> curChuff s" "curChuff s < 15"
    by (simp_all add: inv_def)
  consider (hook) "inMozzi s = 1"
    | (melody) "inMozzi s = 0" "inMelody s = 1" "inChuffing s = 0"
    | (chuff) "inMozzi s = 0" "inMelody s = 0" "inChuffing s = 1"
    using assms(2) f by (auto simp add: settled_def)
  then show ?thesis
  proof cases
    case hook
    then show ?thesis
      by (simp add: hook_tick kept_def drainMeasure_def melodyLen_def)
  next
    case melody
    have l: "loop calm s = playNextNoteInMelody s" using melody by (simp add: loop_melody)
    show ?thesis
    proof (cases "curMelodyNote s + 1 \<ge> melodyLen s")
      case True
      with melody b show ?thesis
        by (simp add: l playNext_ok [OF b] kept_def drainMeasure_def melodyLen_def)
    next
      case False
      with melody b show ?thesis
        by (simp add: l playNext_ok [OF b] kept_def drainMeasure_def melodyLen_def)
    qed
  next
    case chuff
    have l: "loop calm s = Inr (chuffNextChuff s)" using chuff by (simp add: loop_chuff)
    show ?thesis
    proof (cases "curChuff s + 1 \<ge> 15")
      case True
      with chuff c show ?thesis
        by (simp add: l chuffNextChuff_eq kept_def drainMeasure_def melodyLen_def)
    next
      case False
      with chuff c show ?thesis
        by (simp add: l chuffNextChuff_eq kept_def drainMeasure_def melodyLen_def)
    qed
  qed
qed

lemma drain:
  assumes "reachable s"
  shows "\<exists>s1. reachable s1 \<and> settled s1 \<and> kept s s1"
  using assms
proof (induction "drainMeasure s" arbitrary: s rule: less_induct)
  case less
  show ?case
  proof (cases "settled s")
    case True
    with less.prems kept_refl show ?thesis by blast
  next
    case False
    from drain_step [OF reachable_inv [OF less.prems] False]
    obtain s1 where s1: "loop calm s = Inr s1" "kept s s1" "drainMeasure s1 < drainMeasure s"
      by blast
    have r1: "reachable s1" using less.prems s1(1) by (rule after_loop)
    from less.hyps [OF s1(3) r1] obtain s2 where "reachable s2" "settled s2" "kept s1 s2"
      by blast
    with s1(2) kept_trans show ?thesis by blast
  qed
qed

lemma wsOf_Suc:
  assumes "1 \<le> c"
  shows "wsOf (Suc c) = (if c mod 300 = 0 then (wsOf c + 1) mod 5 else wsOf c)"
proof -
  from assms obtain m where m: "c = Suc m" by (cases c) simp_all
  have d: "Suc m div 300 = (if Suc m mod 300 = 0 then Suc (m div 300) else m div 300)"
    by (rule div_Suc)
  show ?thesis
  proof (cases "c mod 300 = 0")
    case True
    with d m have "c div 300 = Suc (m div 300)" by simp
    then have "wsOf (Suc c) = int (Suc (Suc (m div 300)) mod 5)" by (simp add: wsOf_def)
    also have "\<dots> = (int (Suc (m div 300) mod 5) + 1) mod 5" by (simp only: next_index)
    also have "\<dots> = (wsOf c + 1) mod 5" by (simp add: wsOf_def m)
    finally show ?thesis using True by simp
  next
    case False
    with d m have "c div 300 = m div 300" by simp
    then show ?thesis using False by (simp add: wsOf_def m)
  qed
qed

lemma launch_counter: "launchSound t = Inr t1 \<Longrightarrow> counter t1 = counter t"
  by (cases "whichSound t < 2"; cases "whichSound t = 2"; cases "whichSound t = 3")
     (auto simp add: launchSound_eq)

lemma settled_flags:
  "settled s \<Longrightarrow> inMozzi s \<noteq> 1" "settled s \<Longrightarrow> inMelody s \<noteq> 1" "settled s \<Longrightarrow> inChuffing s \<noteq> 1"
  by (simp_all add: settled_def)

text \<open>A tick from a settled state goes through the lights and the counter.\<close>

lemma lighting_tick:
  assumes "inv s" "settled s"
  shows "\<exists>s1. loop e s = Inr s1
     \<and> counter s1 = (if counter s \<ge> 32000 then 0 else counter s + 1)
     \<and> whichSound s1 = (if counter s mod 300 = 0 then (whichSound s + 1) mod 5 else whichSound s)
     \<and> length (launches s1) =
         (if counter s mod 300 = 0 then Suc (length (launches s)) else length (launches s))"
proof -
  note f = settled_flags [OF assms(2)]
  obtain s1 where l: "loop e s = Inr s1" using loop_total [OF assms(1)] by blast
  have c: "counter s1 = (if counter s \<ge> 32000 then 0 else counter s + 1)"
  proof (cases "inWhistle s = 1")
    case True
    have "counter s mod 300 \<noteq> 0" using assms(1) True by (rule inv_whistle_counter)
    with l have "s1 = bumpCounter (trainLights (rnd e) (nextWhistle s))"
      by (simp add: loop_whistle [OF f True])
    then show ?thesis by (simp add: bumpCounter_eq nextWhistle_eq)
  next
    case w: False
    show ?thesis
    proof (cases "counter s mod 300 = 0")
      case True
      obtain s3 where s3: "launchSound (trainLights (rnd e) s) = Inr s3"
        using launchSound_total by blast
      with l have "s1 = bumpCounter s3" by (simp add: loop_launch [OF f w True])
      with launch_counter [OF s3] show ?thesis by (simp add: bumpCounter_eq)
    next
      case False
      with l have "s1 = bumpCounter (trainLights (rnd e) s)" by (simp add: loop_idle [OF f w False])
      then show ?thesis by (simp add: bumpCounter_eq)
    qed
  qed
  have w: "whichSound s1 = (if counter s mod 300 = 0 then (whichSound s + 1) mod 5 else whichSound s)"
  proof (cases "counter s mod 300 = 0")
    case True
    with loop_does_launch(2) [OF assms(1) l f True] show ?thesis by simp
  next
    case False
    then have "inMozzi s = 1 \<or> inMelody s = 1 \<or> inChuffing s = 1 \<or> counter s mod 300 \<noteq> 0" by simp
    from loop_no_launch(2) [OF assms(1) l this] False show ?thesis by simp
  qed
  have n: "length (launches s1) =
         (if counter s mod 300 = 0 then Suc (length (launches s)) else length (launches s))"
  proof (cases "counter s mod 300 = 0")
    case True
    with loop_does_launch(1) [OF assms(1) l f True] show ?thesis by (simp add: launches_def)
  next
    case False
    then have "inMozzi s = 1 \<or> inMelody s = 1 \<or> inChuffing s = 1 \<or> counter s mod 300 \<noteq> 0" by simp
    from loop_no_launch(1) [OF assms(1) l this] False show ?thesis by (simp add: launches_def)
  qed
  from l c w n show ?thesis by blast
qed

lemma launch_count_Suc:
  assumes "1 \<le> c"
  shows "Suc ((Suc c - 1) div 300)
     = (if c mod 300 = 0 then Suc (Suc ((c - 1) div 300)) else Suc ((c - 1) div 300))"
proof -
  from assms obtain m where m: "c = Suc m" by (cases c) simp_all
  have "Suc m div 300 = (if Suc m mod 300 = 0 then Suc (m div 300) else m div 300)"
    by (rule div_Suc)
  then show ?thesis by (simp add: m)
qed

text \<open>
  Every counter value from 1 to 32000 is reached, with the rotation index and the number
  of launches that go with it (one launch in \<open>setup\<close>, one at every multiple of 300).
\<close>

lemma progress:
  assumes "1 \<le> c" "c \<le> 32000"
  shows "\<exists>s. reachable s \<and> settled s \<and> counter s = c \<and> whichSound s = wsOf c
     \<and> length (launches s) = Suc ((c - 1) div 300)"
  using assms
proof (induction c rule: nat_induct_at_least)
  case base
  from drain [OF reachable_setupState] obtain s where "reachable s" "settled s" "kept setupState s"
    by blast
  then show ?case by (auto simp add: kept_def setupState_def wsOf_def launches_def)
next
  case (Suc c)
  then obtain s where s: "reachable s" "settled s" "counter s = c" "whichSound s = wsOf c"
    "length (launches s) = Suc ((c - 1) div 300)"
    by auto
  have i: "inv s" using s(1) by (rule reachable_inv)
  from lighting_tick [OF i s(2), of calm] obtain s1 where s1: "loop calm s = Inr s1"
    "counter s1 = (if counter s \<ge> 32000 then 0 else counter s + 1)"
    "whichSound s1 = (if counter s mod 300 = 0 then (whichSound s + 1) mod 5 else whichSound s)"
    "length (launches s1) =
         (if counter s mod 300 = 0 then Suc (length (launches s)) else length (launches s))"
    by blast
  have r1: "reachable s1" using s(1) s1(1) by (rule after_loop)
  from drain [OF r1] obtain s2 where s2: "reachable s2" "settled s2" "kept s1 s2" by blast
  have "counter s2 = Suc c" using s2(3) s1(2) s(3) Suc.prems by (simp add: kept_def)
  moreover have "whichSound s2 = wsOf (Suc c)"
    using s2(3) s1(3) s(3,4) wsOf_Suc [OF Suc.hyps] by (simp add: kept_def)
  moreover have "length (launches s2) = length (launches s1)"
    using s2(3) by (simp add: kept_def launches_def)
  then have "length (launches s2) = Suc ((Suc c - 1) div 300)"
    using s1(4) s(3,5) launch_count_Suc [OF Suc.hyps] by simp
  ultimately show ?case using s2(1,2) by blast
qed

text \<open>
  The launches up to counter 1500: the startup melody, then the first five launches of
  \<open>loop\<close>.
\<close>

lemma first_launches_reachable:
  "\<exists>s. reachable s
     \<and> launches s = [Melody, Melody, Announcement, PulseSequence, ToneSequence, Melody]"
proof -
  from progress [of 1501] obtain s where s: "reachable s" "length (launches s) = 6"
    by auto
  from reachable_rotation [OF s(1)] have "launches s = map nthLaunch [0..<length (launches s)]"
    by (simp add: rotation_ok_def)
  then have "launches s = map nthLaunch [0..<6]" by (simp only: s(2))
  also have "[0..<6] = [0, 1, 2, 3, 4, 5::nat]" by (simp add: upt_rec)
  finally have "launches s = [Melody, Melody, Announcement, PulseSequence, ToneSequence, Melody]"
    by (simp add: nthLaunch_def loopRotation_def)
  with s(1) show ?thesis by blast
qed

lemma trainLights_calm:
  assumes "length (pixels t) = 3"
  shows "trainLights (\<lambda>i. 0) t =
     t\<lparr>pixels := (pixels t)[0 := (195, 95, 0)], trace := Pixel 0 195 95 0 # trace t\<rparr>"
  using assms by (simp add: trainLights_def random_max_def setPixelColor_def Let_def)

lemma trainLights_other:
  assumes "length (pixels t) = 3"
  shows "trainLights (\<lambda>i. if i = 3 then 1 else 0) t =
     t\<lparr>pixels := (pixels t)[0 := (196, 95, 0)], trace := Pixel 0 196 95 0 # trace t\<rparr>"
  using assms by (simp add: trainLights_def random_max_def setPixelColor_def Let_def)

lemma update_differs:
  assumes "0 < length xs" "xs ! 0 \<noteq> x"
  shows "xs[0 := x] \<noteq> xs"
proof
  assume "xs[0 := x] = xs"
  then have "xs[0 := x] ! 0 = xs ! 0" by simp
  with assms show False by simp
qed

text \<open>Some input makes a frame of the lights change the pixel buffer.\<close>

lemma trainLights_changes:
  assumes "length (pixels t) = 3"
  shows "\<exists>rn. pixels (trainLights rn t) \<noteq> pixels t"
proof (cases "pixels t ! 0 = (195, 95, 0)")
  case True
  then have "pixels t ! 0 \<noteq> (196, 95, 0)" by simp
  with assms have "(pixels t)[0 := (196, 95, 0)] \<noteq> pixels t" by (simp add: update_differs)
  then have "pixels (trainLights (\<lambda>i. if i = 3 then 1 else 0) t) \<noteq> pixels t"
    by (simp add: trainLights_other [OF assms])
  then show ?thesis by blast
next
  case False
  with assms have "(pixels t)[0 := (195, 95, 0)] \<noteq> pixels t" by (simp add: update_differs)
  then have "pixels (trainLights (\<lambda>i. 0) t) \<noteq> pixels t"
    by (simp add: trainLights_calm [OF assms])
  then show ?thesis by blast
qed

lemma wsOf_values: "wsOf 1200 = 4" "wsOf 31800 = 1"
  by (simp_all add: wsOf_def)

text \<open>The state in which the first tone of the first whistle has ended.\<close>

lemma whistle_in_progress_reachable:
  "\<exists>s. reachable s \<and> settled s \<and> inWhistle s = 1 \<and> counter s = 1201"
proof -
  from progress [of 1200] obtain s where s: "reachable s" "settled s" "counter s = 1200" "whichSound s = 4"
    by (auto simp add: wsOf_values)
  have i: "inv s" using s(1) by (rule reachable_inv)
  note f = settled_flags [OF s(2)]
  have m: "counter s mod 300 = 0" using s(3) by simp
  have w: "inWhistle s \<noteq> 1" using inv_whistle_counter [OF i] m by blast
  let ?s2 = "trainLights (rnd calm) s"
  obtain s3 where s3: "launchSound ?s2 = Inr s3" using launchSound_total by blast
  then have l: "loop calm s = Inr (bumpCounter s3)" by (simp add: loop_launch [OF f w m])
  from s3 s(4) have e: "s3 = ?s2\<lparr>inWhistle := 1, curWhistle := 1, inMozzi := 1, mozziMode := MOZZI_WHISTLE,
               trace := Tone WHISTLE_INITIAL [WHISTLE_A] WHISTLE_INITIAL_DURATION
                          # Started ToneSequence # trace ?s2,
               whichSound := 0\<rparr>"
    by (simp add: launchSound_eq)
  let ?s4 = "bumpCounter s3"
  have r4: "reachable ?s4" using s(1) l by (rule after_loop)
  have f4: "inMozzi ?s4 = 1" "inMelody ?s4 = 0" "inChuffing ?s4 = 0" "inWhistle ?s4 = 1"
    "counter ?s4 = 1201"
    using s(2,3) by (simp_all add: e bumpCounter_eq settled_def)
  let ?s5 = "?s4\<lparr>gain := 0, inMozzi := 0\<rparr>"
  have "loop calm ?s4 = Inr ?s5" using f4(1) by (rule hook_tick)
  with r4 have "reachable ?s5" by (rule after_loop)
  moreover have "settled ?s5" "inWhistle ?s5 = 1" "counter ?s5 = 1201"
    using f4 by (simp_all add: settled_def)
  ultimately show ?thesis by blast
qed


lemma run_append:
  "run (xs @ ys) s = (case run xs s of Inl f \<Rightarrow> Inl f | Inr t \<Rightarrow> run ys t)"
  by (induction xs arbitrary: s) (simp_all split: sum.split)

lemma run_reachable: "reachable s \<Longrightarrow> run es s = Inr t \<Longrightarrow> reachable t"
proof (induction es arbitrary: s)
  case Nil
  then show ?case by simp
next
  case (Cons e es)
  from Cons.prems(2) obtain s1 where s1: "loop e s = Inr s1" "run es s1 = Inr t"
    by (auto split: sum.splits)
  from Cons.prems(1) s1(1) have "reachable s1" by (rule after_loop)
  then show ?case using s1(2) by (rule Cons.IH)
qed

lemma idle_tick:
  assumes "inv s" "quiet s" "counter s mod 300 \<noteq> 0"
  shows "loop calm s =
     Inr (s\<lparr>pixels := (pixels s)[0 := (195, 95, 0)], trace := Pixel 0 195 95 0 # trace s,
            counter := (if counter s \<ge> 32000 then 0 else counter s + 1)\<rparr>)"
proof -
  from assms(2) have s: "settled s" and w: "inWhistle s \<noteq> 1" by (simp_all add: quiet_def)
  note f = settled_flags [OF s]
  from assms(1) have len: "length (pixels s) = 3" by (simp add: inv_def)
  have "loop calm s = Inr (bumpCounter (trainLights (rnd calm) s))"
    using f w assms(3) by (rule loop_idle)
  also have "rnd calm = (\<lambda>i. 0)" by (simp add: calm_def)
  finally show ?thesis by (simp add: trainLights_calm [OF len] bumpCounter_eq)
qed

lemma idle_run:
  assumes "inv s" "quiet s" "1 \<le> counter s mod 300" "counter s mod 300 + n \<le> 300"
    "counter s + n \<le> 32000"
  shows "\<exists>t. run (replicate n calm) s = Inr t \<and> inv t \<and> quiet t \<and> counter t = counter s + n
     \<and> flickersSince (trace t) = flickersSince (trace s) + n
     \<and> started (trace t) = started (trace s)"
  using assms
proof (induction n arbitrary: s)
  case 0
  then show ?case by simp
next
  case (Suc n)
  define s1 where "s1 = s\<lparr>pixels := (pixels s)[0 := (195, 95, 0)], trace := Pixel 0 195 95 0 # trace s,
            counter := (if counter s \<ge> 32000 then 0 else counter s + 1)\<rparr>"
  from Suc.prems(3) have m: "counter s mod 300 \<noteq> 0" by simp
  have l: "loop calm s = Inr s1" unfolding s1_def using Suc.prems(1,2) m by (rule idle_tick)
  have c1: "counter s1 = Suc (counter s)" using Suc.prems(5) by (simp add: s1_def)
  have f1: "flickersSince (trace s1) = Suc (flickersSince (trace s))"
    "started (trace s1) = started (trace s)"
    by (simp_all add: s1_def)
  have i1: "inv s1" using Suc.prems(1) l by (rule inv_loop)
  have q1: "quiet s1" using Suc.prems(2) by (simp add: quiet_def settled_def s1_def)
  show ?case
  proof (cases n)
    case 0
    have "run (replicate (Suc n) calm) s = Inr s1" using l 0 by simp
    moreover have "counter s1 = counter s + Suc n" using c1 0 by simp
    moreover have "flickersSince (trace s1) = flickersSince (trace s) + Suc n" using f1 0 by simp
    ultimately show ?thesis using i1 q1 f1(2) by blast
  next
    case (Suc k)
    with Suc.prems(4) have "counter s mod 300 < 299" by simp
    then have m1: "counter s1 mod 300 = Suc (counter s mod 300)"
      by (simp add: c1 mod_Suc)
    have "\<exists>t. run (replicate n calm) s1 = Inr t \<and> inv t \<and> quiet t \<and> counter t = counter s1 + n
       \<and> flickersSince (trace t) = flickersSince (trace s1) + n
       \<and> started (trace t) = started (trace s1)"
      using i1 q1
    proof (rule Suc.IH)
      show "1 \<le> counter s1 mod 300" by (simp add: m1)
      show "counter s1 mod 300 + n \<le> 300" using Suc.prems(4) by (simp add: m1)
      show "counter s1 + n \<le> 32000" using Suc.prems(5) by (simp add: c1)
    qed
    then obtain t where t: "run (replicate n calm) s1 = Inr t" "inv t" "quiet t"
      "counter t = counter s1 + n" "flickersSince (trace t) = flickersSince (trace s1) + n"
      "started (trace t) = started (trace s1)"
      by blast
    have "run (replicate (Suc n) calm) s = Inr t" using l t(1) by simp
    moreover have "counter t = counter s + Suc n" using t(4) c1 by simp
    moreover have "flickersSince (trace t) = flickersSince (trace s) + Suc n" using t(5) f1 by simp
    moreover have "started (trace t) = started (trace s)" using t(6) f1 by simp
    ultimately show ?thesis using t(2,3) by blast
  qed
qed

text \<open>
  Away from the wrap of the counter the period is 300: from a quiet state one tick after
  a multiple of 300, 299 ticks flicker the lights without a launch and the next one
  launches.
\<close>

lemma launch_after_300_flickers:
  assumes "reachable s" "quiet s" "counter s mod 300 = 1" "counter s + 299 \<le> 32000"
  shows "\<exists>t u. run (replicate 299 calm) s = Inr t \<and> launches t = launches s
     \<and> flickersSince (trace t) = flickersSince (trace s) + 299
     \<and> loop calm t = Inr u \<and> length (launches u) = Suc (length (launches s))"
proof -
  have i: "inv s" using assms(1) by (rule reachable_inv)
  have "\<exists>t. run (replicate 299 calm) s = Inr t \<and> inv t \<and> quiet t \<and> counter t = counter s + 299
     \<and> flickersSince (trace t) = flickersSince (trace s) + 299
     \<and> started (trace t) = started (trace s)"
    using i assms(2) by (rule idle_run) (simp_all add: assms(3,4))
  then obtain t where t: "run (replicate 299 calm) s = Inr t" "inv t" "quiet t"
    "counter t = counter s + 299" "flickersSince (trace t) = flickersSince (trace s) + 299"
    "started (trace t) = started (trace s)"
    by blast
  have "(counter s + 299) mod 300 = (counter s mod 300 + 299) mod 300"
    by (simp add: mod_add_left_eq)
  then have m: "counter t mod 300 = 0" using assms(3) t(4) by simp
  obtain u where u: "loop calm t = Inr u" using loop_total [OF t(2)] by blast
  have st: "settled t" using t(3) by (simp add: quiet_def)
  from loop_does_launch(1) [OF t(2) u settled_flags [OF st] m] t(6)
  have "length (launches u) = Suc (length (launches s))" by (simp add: launches_def)
  with t(1,5,6) u show ?thesis by (auto simp add: launches_def)
qed


text \<open>The state after the launch at counter 31800 and the end of its melody.\<close>

lemma after_last_launch_reachable:
  "\<exists>s. reachable s \<and> quiet s \<and> flickersSince (trace s) = 0 \<and> launches s \<noteq> [] \<and> counter s = 31801"
proof -
  from progress [of 31800] obtain s0 where s0: "reachable s0" "settled s0" "counter s0 = 31800"
    "whichSound s0 = 1"
    by (auto simp add: wsOf_values)
  have i: "inv s0" using s0(1) by (rule reachable_inv)
  note f = settled_flags [OF s0(2)]
  have m: "counter s0 mod 300 = 0" using s0(3) by simp
  have w: "inWhistle s0 \<noteq> 1" using inv_whistle_counter [OF i] m by blast
  with i have w0: "inWhistle s0 = 0" by (simp add: inv_def)
  let ?s2 = "trainLights (rnd calm) s0"
  obtain s3 where s3: "launchSound ?s2 = Inr s3" using launchSound_total by blast
  then have l: "loop calm s0 = Inr (bumpCounter s3)" by (simp add: loop_launch [OF f w m])
  from s3 s0(4) have e: "s3 = ?s2\<lparr>inMelody := 1, curMelodyNote := 1,
            whichMelody := (if whichSound ?s2 > 0 then 1 else whichSound ?s2),
            inMozzi := 1, mozziMode := MOZZI_NOTE,
            trace := Note (chosenNotes (resetMelody ?s2) ! 0) (noteMillis (chosenDurations (resetMelody ?s2) ! 0))
                       # Started Melody # trace ?s2,
            whichSound := whichSound ?s2 + 1\<rparr>"
    by (simp add: launchSound_eq)
  let ?s4 = "bumpCounter s3"
  have r4: "reachable ?s4" using s0(1) l by (rule after_loop)
  have f4: "inWhistle ?s4 = 0" "counter ?s4 = 31801" "flickersSince (trace ?s4) = 0"
    "started (trace ?s4) \<noteq> []"
    using s0(3) w0 by (simp_all add: e bumpCounter_eq)
  from drain [OF r4] obtain s where s: "reachable s" "settled s" "kept ?s4 s" by blast
  have "quiet s" "flickersSince (trace s) = 0" "launches s \<noteq> []" "counter s = 31801"
    using s(2,3) f4 by (simp_all add: kept_def quiet_def launches_def)
  with s(1) show ?thesis by blast
qed


subsection \<open>Lights during a sound\<close>

text \<open>
  A tick that enters with \<open>inMozzi\<close>, \<open>inMelody\<close> or \<open>inChuffing\<close> set returns before the
  lights and leaves the pixel buffer as it was.
\<close>

lemma lights_frozen_while_busy:
  assumes "inv s" "inMozzi s = 1 \<or> inMelody s = 1 \<or> inChuffing s = 1" "loop e s = Inr s1"
  shows "pixels s1 = pixels s"
proof -
  from assms(1) have b: "0 \<le> curMelodyNote s" "curMelodyNote s < melodyLen s"
    by (simp_all add: inv_def)
  consider (hook) "inMozzi s = 1"
    | (melody) "inMozzi s \<noteq> 1" "inMelody s = 1"
    | (chuff) "inMozzi s \<noteq> 1" "inMelody s \<noteq> 1" "inChuffing s = 1"
    using assms(2) by blast
  then show ?thesis
  proof cases
    case hook
    with assms(3) show ?thesis by (auto simp add: loop_hook)
  next
    case melody
    with assms(3) show ?thesis by (auto simp add: loop_melody playNext_ok [OF b])
  next
    case chuff
    with assms(3) show ?thesis by (auto simp add: loop_chuff chuffNextChuff_eq)
  qed
qed

text \<open>
  Claim C2 on the code. The whistle branch of \<open>loop\<close> does not return after \<open>nextWhistle\<close>:
  in the reachable state where the first tone of the first whistle has ended (\<open>inWhistle\<close>
  is 1, the counter is 1201), the tick starts the next tone and then writes a light.
\<close>

theorem lights_written_during_whistle:
  "\<exists>s e s1. reachable s \<and> inMozzi s = 0 \<and> inWhistle s = 1 \<and> activeCount s = 1 \<and> counter s = 1201
     \<and> loop e s = Inr s1 \<and> pixels s1 \<noteq> pixels s"
proof -
  from whistle_in_progress_reachable obtain s where
    s: "reachable s" "settled s" "inWhistle s = 1" "counter s = 1201"
    by blast
  have i: "inv s" using s(1) by (rule reachable_inv)
  note f = settled_flags [OF s(2)]
  have m: "counter s mod 300 \<noteq> 0" using i s(3) by (rule inv_whistle_counter)
  have len: "length (pixels (nextWhistle s)) = 3" using i by (simp add: inv_def nextWhistle_eq)
  from trainLights_changes [OF len] obtain rn where
    rn: "pixels (trainLights rn (nextWhistle s)) \<noteq> pixels (nextWhistle s)" by blast
  let ?e = "\<lparr>hook = NoControl, rnd = rn\<rparr>"
  let ?s1 = "bumpCounter (trainLights rn (nextWhistle s))"
  have "loop ?e s = Inr ?s1" using loop_whistle [OF f s(3) m, of ?e] by simp
  moreover have "pixels ?s1 \<noteq> pixels s" using rn by (simp add: bumpCounter_eq nextWhistle_eq)
  moreover have "activeCount s = 1" "inMozzi s = 0" using s(2,3) by (simp_all add: activeCount_def settled_def)
  ultimately show ?thesis using s(1,3,4) by blast
qed

subsection \<open>Flickers between two launches\<close>

text \<open>
  Claim C5 on the code. The counter is reset to 0 above 32000, and 32000 is not a multiple
  of 300: after the launch at counter 31800 and the end of its melody, 200 ticks flicker
  the lights without starting a sound, and the tick after them, at counter 0, starts the
  next sound.
\<close>

theorem launch_after_201_flickers:
  "\<exists>s t u. reachable s \<and> inMozzi s = 0 \<and> activeCount s = 0
     \<and> launches s \<noteq> [] \<and> flickersSince (trace s) = 0
     \<and> run (replicate 200 calm) s = Inr t
     \<and> launches t = launches s \<and> flickersSince (trace t) = 200
     \<and> loop calm t = Inr u \<and> length (launches u) = Suc (length (launches s))"
proof -
  from after_last_launch_reachable obtain s where s: "reachable s" "quiet s"
    "flickersSince (trace s) = 0" "launches s \<noteq> []" "counter s = 31801"
    by blast
  have i: "inv s" using s(1) by (rule reachable_inv)
  have "\<exists>t. run (replicate 199 calm) s = Inr t \<and> inv t \<and> quiet t \<and> counter t = counter s + 199
     \<and> flickersSince (trace t) = flickersSince (trace s) + 199
     \<and> started (trace t) = started (trace s)"
    using i s(2) by (rule idle_run) (simp_all add: s(5))
  then obtain t1 where t1: "run (replicate 199 calm) s = Inr t1" "inv t1" "quiet t1"
    "counter t1 = 32000" "flickersSince (trace t1) = 199" "started (trace t1) = started (trace s)"
    using s(3,5) by auto
  let ?t = "t1\<lparr>pixels := (pixels t1)[0 := (195, 95, 0)], trace := Pixel 0 195 95 0 # trace t1,
            counter := (if counter t1 \<ge> 32000 then 0 else counter t1 + 1)\<rparr>"
  have l1: "loop calm t1 = Inr ?t" using t1(2,3) by (rule idle_tick) (simp add: t1(4))
  have "replicate (199 + 1) calm = replicate 199 calm @ replicate 1 calm"
    by (rule replicate_add)
  then have "replicate 200 calm = replicate 199 calm @ [calm]" by simp
  then have r: "run (replicate 200 calm) s = Inr ?t" using t1(1) l1 by (simp add: run_append)
  have it: "inv ?t" using t1(2) l1 by (rule inv_loop)
  have ft: "settled ?t" "counter ?t = 0" "launches ?t = launches s" "flickersSince (trace ?t) = 200"
    using t1(3-6) by (simp_all add: quiet_def settled_def launches_def)
  obtain u where u: "loop calm ?t = Inr u" using loop_total [OF it] by blast
  have m: "counter ?t mod 300 = 0" using ft(2) by simp
  from loop_does_launch(1) [OF it u settled_flags [OF ft(1)] m] ft(3)
  have "length (launches u) = Suc (length (launches s))" by (simp add: launches_def)
  moreover have "inMozzi s = 0" "activeCount s = 0"
    using s(2) by (simp_all add: quiet_def settled_def activeCount_def)
  ultimately show ?thesis using s(1,3,4) r ft(3,4) u by blast
qed

subsection \<open>The run with calm input, tick by tick\<close>

lemma reachable_calmState: "reachable (calmState n)"
proof (induction n)
  case 0
  show ?case by (simp add: reachable_setupState)
next
  case (Suc n)
  obtain s1 where l: "loop calm (calmState n) = Inr s1"
    using loop_total [OF reachable_inv [OF Suc]] by blast
  from Suc l have "reachable s1" by (rule after_loop)
  with l show ?case by (simp add: calmState.simps(2))
qed

lemma calmState_step: "loop calm (calmState n) = Inr (calmState (Suc n))"
proof -
  obtain s1 where l: "loop calm (calmState n) = Inr s1"
    using loop_total [OF reachable_inv [OF reachable_calmState]] by blast
  then show ?thesis by (simp add: calmState.simps(2))
qed

lemma run_calmState: "run (replicate k calm) (calmState n) = Inr (calmState (n + k))"
proof (induction k arbitrary: n)
  case 0
  show ?case by simp
next
  case (Suc k)
  have "run (replicate (Suc k) calm) (calmState n) = run (replicate k calm) (calmState (Suc n))"
    by (simp add: calmState_step)
  also have "\<dots> = Inr (calmState (Suc n + k))" by (rule Suc)
  finally show ?case by simp
qed

lemma settled_measure: "settled s \<Longrightarrow> drainMeasure s = 0"
  by (simp add: settled_def drainMeasure_def)

lemma measure_settled:
  assumes "inv s" "drainMeasure s = 0"
  shows "settled s"
proof -
  from assms(1) have b: "curMelodyNote s < melodyLen s" "curChuff s < 15"
    and f: "inMozzi s = 0 \<or> inMozzi s = 1" "inMelody s = 0 \<or> inMelody s = 1"
      "inChuffing s = 0 \<or> inChuffing s = 1"
    by (simp_all add: inv_def)
  have 1: "inMozzi s \<noteq> 1" using assms(2) by (auto simp add: drainMeasure_def split: if_splits)
  have 2: "inMelody s \<noteq> 1" using assms(2) b(1) by (auto simp add: drainMeasure_def split: if_splits)
  have 3: "inChuffing s \<noteq> 1" using assms(2) b(2) by (auto simp add: drainMeasure_def split: if_splits)
  from 1 2 3 f show ?thesis by (simp add: settled_def)
qed

lemma drain_step_exact:
  assumes "inv s" "\<not> settled s"
  shows "\<exists>s1. loop calm s = Inr s1 \<and> kept s s1 \<and> drainMeasure s = Suc (drainMeasure s1)"
proof -
  from assms(1) have b: "0 \<le> curMelodyNote s" "curMelodyNote s < melodyLen s"
    and f: "inMozzi s = 0 \<or> inMozzi s = 1" "inMelody s = 0 \<or> inMelody s = 1"
      "inChuffing s = 0 \<or> inChuffing s = 1" "inMelody s + inChuffing s + inWhistle s \<le> 1"
      "inWhistle s = 0 \<or> inWhistle s = 1"
    and c: "0 \<le> curChuff s" "curChuff s < 15"
    by (simp_all add: inv_def)
  consider (hook) "inMozzi s = 1"
    | (melody) "inMozzi s = 0" "inMelody s = 1" "inChuffing s = 0"
    | (chuff) "inMozzi s = 0" "inMelody s = 0" "inChuffing s = 1"
    using assms(2) f by (auto simp add: settled_def)
  then show ?thesis
  proof cases
    case hook
    then show ?thesis
      by (simp add: hook_tick kept_def drainMeasure_def melodyLen_def)
  next
    case melody
    have l: "loop calm s = playNextNoteInMelody s" using melody by (simp add: loop_melody)
    show ?thesis
    proof (cases "curMelodyNote s + 1 \<ge> melodyLen s")
      case True
      with b have "melodyLen s - curMelodyNote s = 1" by simp
      with True melody b show ?thesis
        by (simp add: l playNext_ok [OF b] kept_def drainMeasure_def melodyLen_def)
    next
      case False
      then have "nat (melodyLen s - curMelodyNote s) = Suc (nat (melodyLen s - (curMelodyNote s + 1)))"
        by linarith
      with False melody b show ?thesis
        by (simp add: l playNext_ok [OF b] kept_def drainMeasure_def melodyLen_def)
    qed
  next
    case chuff
    have l: "loop calm s = Inr (chuffNextChuff s)" using chuff by (simp add: loop_chuff)
    show ?thesis
    proof (cases "curChuff s + 1 \<ge> 15")
      case True
      with c have "15 - curChuff s = 1" by simp
      with True chuff c show ?thesis
        by (simp add: l chuffNextChuff_eq kept_def drainMeasure_def melodyLen_def)
    next
      case False
      then have "nat (15 - curChuff s) = Suc (nat (15 - (curChuff s + 1)))"
        by linarith
      with False chuff c show ?thesis
        by (simp add: l chuffNextChuff_eq kept_def drainMeasure_def melodyLen_def)
    qed
  qed
qed

lemma drain_exact:
  assumes "inv s" "drainMeasure s = n"
  shows "\<exists>t. run (replicate n calm) s = Inr t \<and> settled t \<and> kept s t"
  using assms
proof (induction n arbitrary: s)
  case 0
  then have "settled s" by (simp add: measure_settled)
  then show ?case by (simp add: kept_refl)
next
  case (Suc n)
  have "\<not> settled s" using Suc.prems(2) settled_measure by fastforce
  from drain_step_exact [OF Suc.prems(1) this] obtain s1 where
    s1: "loop calm s = Inr s1" "kept s s1" "drainMeasure s = Suc (drainMeasure s1)"
    by blast
  have i1: "inv s1" using Suc.prems(1) s1(1) by (rule inv_loop)
  have "drainMeasure s1 = n" using s1(3) Suc.prems(2) by simp
  from Suc.IH [OF i1 this] obtain t where t: "run (replicate n calm) s1 = Inr t" "settled t" "kept s1 t"
    by blast
  have "run (replicate (Suc n) calm) s = Inr t" using s1(1) t(1) by simp
  moreover have "kept s t" using s1(2) t(3) by (rule kept_trans)
  ultimately show ?case using t(2) by blast
qed

lemma drain_calm:
  assumes "drainMeasure (calmState n) = d"
  shows "settled (calmState (n + d))" "kept (calmState n) (calmState (n + d))"
proof -
  from drain_exact [OF reachable_inv [OF reachable_calmState] assms]
  obtain t where "run (replicate d calm) (calmState n) = Inr t" "settled t" "kept (calmState n) t"
    by blast
  then show "settled (calmState (n + d))" "kept (calmState n) (calmState (n + d))"
    by (simp_all add: run_calmState)
qed

lemma inv_calmState: "inv (calmState n)"
  using reachable_calmState by (rule reachable_inv)

lemma whichSound_calmState: "whichSound (calmState n) = int (length (launches (calmState n)) mod 5)"
  using reachable_rotation [OF reachable_calmState] by (simp add: rotation_ok_def)

lemma idle_calm:
  assumes "quietAt n c L" "1 \<le> c mod 300" "c mod 300 + k \<le> 300" "c + k \<le> 32000"
  shows "quietAt (n + k) (c + k) L"
proof -
  from assms(1) have q: "quiet (calmState n)" "counter (calmState n) = c"
    "length (launches (calmState n)) = L"
    by (simp_all add: quietAt_def)
  have a: "1 \<le> counter (calmState n) mod 300" "counter (calmState n) mod 300 + k \<le> 300"
    "counter (calmState n) + k \<le> 32000"
    using assms(2,3,4) by (simp_all add: q(2))
  have "\<exists>t. run (replicate k calm) (calmState n) = Inr t \<and> inv t \<and> quiet t
     \<and> counter t = counter (calmState n) + k
     \<and> flickersSince (trace t) = flickersSince (trace (calmState n)) + k
     \<and> started (trace t) = started (trace (calmState n))"
    using inv_calmState q(1) a by (rule idle_run)
  then show ?thesis using q by (auto simp add: run_calmState quietAt_def launches_def)
qed

lemma launch_tick_state:
  assumes "inv s" "quiet s" "counter s mod 300 = 0" "loop calm s = Inr s1"
  shows "drainMeasure s1 = launchDrain (nat (whichSound s))"
    "inWhistle s1 = (if whichSound s = 4 then 1 else 0)"
    "curWhistle s1 = (if whichSound s = 4 then 1 else curWhistle s)"
proof -
  from assms(2) have st: "settled s" and w: "inWhistle s \<noteq> 1" and w0: "inWhistle s = 0"
    and z: "inMozzi s = 0" "inMelody s = 0" "inChuffing s = 0"
    by (simp_all add: quiet_def settled_def)
  note f = settled_flags [OF st]
  let ?s2 = "trainLights (rnd calm) s"
  obtain s3 where s3: "launchSound ?s2 = Inr s3" using launchSound_total by blast
  with assms(4) have s1: "s1 = bumpCounter s3" by (simp add: loop_launch [OF f w assms(3)])
  have "0 \<le> whichSound s" "whichSound s \<le> 4" using assms(1) by (simp_all add: inv_def)
  then consider "whichSound s = 0" | "whichSound s = 1" | "whichSound s = 2" | "whichSound s = 3"
    | "whichSound s = 4"
    by linarith
  then have "drainMeasure s1 = launchDrain (nat (whichSound s))
     \<and> inWhistle s1 = (if whichSound s = 4 then 1 else 0)
     \<and> curWhistle s1 = (if whichSound s = 4 then 1 else curWhistle s)"
  proof cases
    case 1
    with s3 s1 z w0 show ?thesis
      by (auto simp add: launchSound_eq bumpCounter_eq drainMeasure_def melodyLen_def launchDrain_def)
  next
    case 2
    with s3 s1 z w0 show ?thesis
      by (auto simp add: launchSound_eq bumpCounter_eq drainMeasure_def melodyLen_def launchDrain_def)
  next
    case 3
    with s3 s1 z w0 show ?thesis
      by (auto simp add: launchSound_eq bumpCounter_eq drainMeasure_def melodyLen_def launchDrain_def)
  next
    case 4
    with s3 s1 z w0 show ?thesis
      by (auto simp add: launchSound_eq bumpCounter_eq drainMeasure_def melodyLen_def launchDrain_def)
  next
    case 5
    with s3 s1 z w0 show ?thesis
      by (auto simp add: launchSound_eq bumpCounter_eq drainMeasure_def melodyLen_def launchDrain_def)
  qed
  then show "drainMeasure s1 = launchDrain (nat (whichSound s))"
    "inWhistle s1 = (if whichSound s = 4 then 1 else 0)"
    "curWhistle s1 = (if whichSound s = 4 then 1 else curWhistle s)"
    by simp_all
qed

lemma whistle_tick_state:
  assumes "inv s" "settled s" "inWhistle s = 1" "loop calm s = Inr s1"
  shows "drainMeasure s1 = 1" "started (trace s1) = started (trace s)"
    "inWhistle s1 = (if curWhistle s = 1 then 1 else 0)"
    "curWhistle s1 = (if curWhistle s = 1 then 2 else 0)"
proof -
  note f = settled_flags [OF assms(2)]
  from assms(2) have z: "inMozzi s = 0" "inMelody s = 0" "inChuffing s = 0"
    by (simp_all add: settled_def)
  from assms(1,3) have "1 \<le> curWhistle s" "curWhistle s \<le> 2" by (simp_all add: inv_def)
  then have c: "curWhistle s = 1 \<or> curWhistle s = 2" by linarith
  have m: "counter s mod 300 \<noteq> 0" using assms(1,3) by (rule inv_whistle_counter)
  from assms(4) have s1: "s1 = bumpCounter (trainLights (rnd calm) (nextWhistle s))"
    by (simp add: loop_whistle [OF f assms(3) m])
  from c have "drainMeasure s1 = 1 \<and> started (trace s1) = started (trace s)
     \<and> inWhistle s1 = (if curWhistle s = 1 then 1 else 0)
     \<and> curWhistle s1 = (if curWhistle s = 1 then 2 else 0)"
  proof
    assume "curWhistle s = 1"
    with z assms(3) show ?thesis
      by (simp add: s1 bumpCounter_eq nextWhistle_eq drainMeasure_def)
  next
    assume "curWhistle s = 2"
    with z assms(3) show ?thesis
      by (simp add: s1 bumpCounter_eq nextWhistle_eq drainMeasure_def)
  qed
  then show "drainMeasure s1 = 1" "started (trace s1) = started (trace s)"
    "inWhistle s1 = (if curWhistle s = 1 then 1 else 0)"
    "curWhistle s1 = (if curWhistle s = 1 then 2 else 0)"
    by simp_all
qed

lemma launch_calm:
  assumes "quietAt n c L" "c mod 300 = 0" "c < 32000"
  shows "counter (calmState (Suc n)) = Suc c"
    "length (launches (calmState (Suc n))) = Suc L"
    "drainMeasure (calmState (Suc n)) = launchDrain (L mod 5)"
    "inWhistle (calmState (Suc n)) = (if L mod 5 = 4 then 1 else 0)"
    "L mod 5 = 4 \<Longrightarrow> curWhistle (calmState (Suc n)) = 1"
proof -
  from assms(1) have q: "quiet (calmState n)" "counter (calmState n) = c"
    "length (launches (calmState n)) = L"
    by (simp_all add: quietAt_def)
  have st: "settled (calmState n)" using q(1) by (simp add: quiet_def)
  have m: "counter (calmState n) mod 300 = 0" using assms(2) q(2) by simp
  from lighting_tick [OF inv_calmState st, of calm]
  show "counter (calmState (Suc n)) = Suc c" "length (launches (calmState (Suc n))) = Suc L"
    using assms(2,3) q(2,3) by (simp_all add: calmState_step)
  have w: "whichSound (calmState n) = int (L mod 5)" using whichSound_calmState [of n] q(3) by simp
  from launch_tick_state [OF inv_calmState q(1) m calmState_step]
  show "drainMeasure (calmState (Suc n)) = launchDrain (L mod 5)"
    "inWhistle (calmState (Suc n)) = (if L mod 5 = 4 then 1 else 0)"
    "L mod 5 = 4 \<Longrightarrow> curWhistle (calmState (Suc n)) = 1"
    by (simp_all add: w)
qed

lemma whistle_calm:
  assumes "settled (calmState m)" "inWhistle (calmState m) = 1" "counter (calmState m) = c"
  shows "settled (calmState (m + 2))" "counter (calmState (m + 2)) = Suc c"
    "started (trace (calmState (m + 2))) = started (trace (calmState m))"
    "inWhistle (calmState (m + 2)) = (if curWhistle (calmState m) = 1 then 1 else 0)"
    "curWhistle (calmState (m + 2)) = (if curWhistle (calmState m) = 1 then 2 else 0)"
proof -
  have i: "inv (calmState m)" by (rule inv_calmState)
  have nz: "counter (calmState m) mod 300 \<noteq> 0" using i assms(2) by (rule inv_whistle_counter)
  have "counter (calmState m) \<le> 32000" using i by (simp add: inv_def)
  moreover have "counter (calmState m) \<noteq> 32000"
  proof
    assume "counter (calmState m) = 32000"
    moreover from i assms(2) have "curWhistle (calmState m) \<le> 2"
      "int (counter (calmState m) mod 300) = curWhistle (calmState m)"
      by (simp_all add: inv_def)
    ultimately show False by simp
  qed
  ultimately have lt: "counter (calmState m) < 32000" by simp
  from lighting_tick [OF i assms(1), of calm]
  have c1: "counter (calmState (Suc m)) = Suc c" using lt assms(3) by (simp add: calmState_step)
  note w = whistle_tick_state [OF i assms(1,2) calmState_step]
  from drain_calm [OF w(1)]
  have d: "settled (calmState (Suc m + 1))" "kept (calmState (Suc m)) (calmState (Suc m + 1))" .
  have e: "Suc m + 1 = m + 2" by simp
  from d(1) show "settled (calmState (m + 2))" by (simp only: e)
  from d(2) c1 w(2,3,4)
  show "counter (calmState (m + 2)) = Suc c"
    "started (trace (calmState (m + 2))) = started (trace (calmState m))"
    "inWhistle (calmState (m + 2)) = (if curWhistle (calmState m) = 1 then 1 else 0)"
    "curWhistle (calmState (m + 2)) = (if curWhistle (calmState m) = 1 then 2 else 0)"
    by (simp_all only: e [symmetric] kept_def)
qed

lemma next_multiple:
  assumes "c mod 300 + k = (300::nat)"
  shows "(c + k) mod 300 = 0"
proof -
  have "(c + k) mod 300 = (c mod 300 + k) mod 300" by (simp add: mod_add_left_eq)
  then show ?thesis by (simp add: assms)
qed

text \<open>From one quiet state to the next, across the launch of a melody, the announcement or the pulses.\<close>

lemma period_plain:
  assumes "quietAt n c L" "1 \<le> c mod 300" "c mod 300 + k = 300" "c + k < 32000" "L mod 5 \<noteq> 4"
  shows "quietAt (n + k + 1 + launchDrain (L mod 5)) (c + k + 1) (Suc L)"
proof -
  have k: "c mod 300 + k \<le> 300" "c + k \<le> 32000" "(c + k) mod 300 = 0"
    using assms(3,4) next_multiple [OF assms(3)] by simp_all
  have q: "quietAt (n + k) (c + k) L" using assms(1,2) k(1,2) by (rule idle_calm)
  note l = launch_calm [OF q k(3) assms(4)]
  from drain_calm [OF l(3)]
  have d: "settled (calmState (Suc (n + k) + launchDrain (L mod 5)))"
    "kept (calmState (Suc (n + k))) (calmState (Suc (n + k) + launchDrain (L mod 5)))" .
  have e: "Suc (n + k) + launchDrain (L mod 5) = n + k + 1 + launchDrain (L mod 5)"
    "Suc (c + k) = c + k + 1"
    by simp_all
  have "quietAt (Suc (n + k) + launchDrain (L mod 5)) (Suc (c + k)) (Suc L)"
    using d l(1,2,4) assms(5) by (simp add: quietAt_def quiet_def kept_def launches_def)
  then show ?thesis unfolding e .
qed

text \<open>The same across the launch of the whistle, whose two later stages are lighting ticks.\<close>

lemma period_whistle:
  assumes "quietAt n c L" "1 \<le> c mod 300" "c mod 300 + k = 300" "c + k < 32000" "L mod 5 = 4"
  shows "whichSound (calmState (n + k + 1)) = 0"
    "length (launches (calmState (n + k + 1))) = Suc L"
    "quietAt (n + k + 6) (c + k + 3) (Suc L)"
proof -
  have k: "c mod 300 + k \<le> 300" "c + k \<le> 32000" "(c + k) mod 300 = 0"
    using assms(3,4) next_multiple [OF assms(3)] by simp_all
  have q: "quietAt (n + k) (c + k) L" using assms(1,2) k(1,2) by (rule idle_calm)
  note l = launch_calm [OF q k(3) assms(4)]
  have e1: "Suc (n + k) = n + k + 1" by simp
  have l5: "Suc L mod 5 = 0" using assms(5) by (simp add: mod_Suc)
  have "whichSound (calmState (Suc (n + k))) = 0"
    using whichSound_calmState [of "Suc (n + k)"] l(2) l5 by simp
  then show "whichSound (calmState (n + k + 1)) = 0" unfolding e1 .
  from l(2) show "length (launches (calmState (n + k + 1))) = Suc L" unfolding e1 .
  have m1: "drainMeasure (calmState (Suc (n + k))) = 1" using l(3) assms(5) by (simp add: launchDrain_def)
  from drain_calm [OF m1]
  have d: "settled (calmState (Suc (n + k) + 1))"
    "kept (calmState (Suc (n + k))) (calmState (Suc (n + k) + 1))" .
  define m where "m = Suc (n + k) + 1"
  have a: "settled (calmState m)" "inWhistle (calmState m) = 1" "curWhistle (calmState m) = 1"
    "counter (calmState m) = Suc (c + k)"
    "started (trace (calmState m)) = started (trace (calmState (Suc (n + k))))"
    using d l(1,4,5) assms(5) by (simp_all add: m_def kept_def)
  note b = whistle_calm [OF a(1,2,4)]
  have b': "inWhistle (calmState (m + 2)) = 1" "curWhistle (calmState (m + 2)) = 2"
    using b(4,5) a(3) by simp_all
  note c = whistle_calm [OF b(1) b'(1) b(2)]
  have c': "inWhistle (calmState (m + 2 + 2)) = 0" using c(4) b'(2) by simp
  have e2: "m + 2 + 2 = n + k + 6" "Suc (Suc (Suc (c + k))) = c + k + 3" by (simp_all add: m_def)
  have "quietAt (m + 2 + 2) (Suc (Suc (Suc (c + k)))) (Suc L)"
    using c(1,2,3) c' b(3) a(5) l(2) by (simp add: quietAt_def quiet_def launches_def)
  then show "quietAt (n + k + 6) (c + k + 3) (Suc L)" unfolding e2 .
qed

lemma launch_extends:
  assumes "reachable s" "loop e s = Inr s1"
    "inMozzi s \<noteq> 1" "inMelody s \<noteq> 1" "inChuffing s \<noteq> 1" "counter s mod 300 = 0"
  shows "launches s1 = launches s @ [nthLaunch (length (launches s))]"
proof -
  have i: "inv s" using assms(1) by (rule reachable_inv)
  let ?n = "length (launches s)"
  from reachable_rotation [OF assms(1)]
  have r: "1 \<le> ?n" "whichSound s = int (?n mod 5)"
    by (simp_all add: rotation_ok_def Suc_le_eq)
  from loop_does_launch(1) [OF i assms(2-6)]
  have l: "launches s1 = launches s @ [soundAt (whichSound s)]" by (simp add: launches_def)
  from r(1) obtain m where m: "?n = Suc m" by (cases ?n) simp_all
  have "soundAt (whichSound s) = nthLaunch ?n" using r(2) soundAt_nthLaunch [of m] by (simp add: m)
  with l show ?thesis by simp
qed

lemma quiet_59: "quietAt 59 1 1"
proof -
  have "drainMeasure (calmState 0) = 59" by (simp add: drainMeasure_def setupState_def melodyLen_def)
  from drain_calm [OF this]
  have "settled (calmState 59)" "kept (calmState 0) (calmState 59)" by simp_all
  then show ?thesis
    by (simp add: quietAt_def quiet_def kept_def launches_def setupState_def)
qed

lemma quiet_444: "quietAt 444 301 2"
proof -
  have "quietAt (59 + 299 + 1 + launchDrain (1 mod 5)) (1 + 299 + 1) (Suc 1)"
    using quiet_59 by (rule period_plain) simp_all
  moreover have "59 + 299 + 1 + launchDrain (1 mod 5) = 444" "1 + 299 + 1 = (301::nat)" "Suc 1 = 2"
    by (simp_all add: launchDrain_def)
  ultimately show ?thesis by (simp only:)
qed

lemma quiet_744: "quietAt 744 601 3"
  using period_plain [OF quiet_444, of 299] by (simp add: launchDrain_def)

lemma quiet_1073: "quietAt 1073 901 4"
  using period_plain [OF quiet_744, of 299] by (simp add: launchDrain_def)

lemma at_1373: "whichSound (calmState 1373) = 0" "length (launches (calmState 1373)) = 5"
  using period_whistle(1,2) [OF quiet_1073, of 299] by simp_all

lemma quiet_1378: "quietAt 1378 1203 5"
  using period_whistle(3) [OF quiet_1073, of 299] by simp

lemma quiet_1675: "quietAt 1675 1500 5"
  using idle_calm [OF quiet_1378, of 297] by simp

lemma quiet_1735: "quietAt 1735 1501 6"
  using period_plain [OF quiet_1378, of 297] by (simp add: launchDrain_def)

lemma quiet_2120: "quietAt 2120 1801 7"
  using period_plain [OF quiet_1735, of 299] by (simp add: launchDrain_def)

lemma quiet_2420: "quietAt 2420 2101 8"
  using period_plain [OF quiet_2120, of 299] by (simp add: launchDrain_def)

lemma quiet_2749: "quietAt 2749 2401 9"
  using period_plain [OF quiet_2420, of 299] by (simp add: launchDrain_def)

lemma at_3049: "length (launches (calmState 3049)) = 10"
  using period_whistle(2) [OF quiet_2749, of 299] by simp

lemma launches_calmState:
  "launches (calmState n) = map nthLaunch [0..<length (launches (calmState n))]"
  using reachable_rotation [OF reachable_calmState] by (simp add: rotation_ok_def)

lemma launches_1373:
  "launches (calmState 1373) = [Melody, Melody, Announcement, PulseSequence, ToneSequence]"
proof -
  have "launches (calmState 1373) = map nthLaunch [0..<5]"
    using launches_calmState [of 1373] by (simp only: at_1373(2))
  also have "[0..<5] = [0, 1, 2, 3, 4::nat]" by (simp add: upt_rec)
  finally show ?thesis by (simp add: nthLaunch_def loopRotation_def)
qed

lemma launches_3049:
  "launches (calmState 3049) = [Melody, Melody, Announcement, PulseSequence, ToneSequence,
     Melody, Melody, Announcement, PulseSequence, ToneSequence]"
proof -
  have "launches (calmState 3049) = map nthLaunch [0..<10]"
    using launches_calmState [of 3049] by (simp only: at_3049)
  also have "[0..<10] = [0, 1, 2, 3, 4, 5, 6, 7, 8, 9::nat]" by (simp add: upt_rec)
  finally show ?thesis by (simp add: nthLaunch_def loopRotation_def)
qed


subsection \<open>Rotation\<close>

text \<open>
  Claim C4, as the code has it. In every reachable state the sounds started so far are
  launch 0, the startup melody of \<open>setup\<close> at rotation index 0, followed by the launches of
  \<open>loop\<close>, which begin at rotation index 1 and run through Melody, Announcement,
  PulseSequence, ToneSequence, Melody cyclically; \<open>whichSound\<close> is the number of launches
  modulo 5; and every tick that reaches the launch (no sound in progress, the counter at a
  multiple of 300) adds the next sound of that order to the launches.
\<close>

theorem launches_follow_rotation:
  assumes "reachable s"
  shows "launches s = map nthLaunch [0..<length (launches s)] \<and> launches s \<noteq> []
     \<and> whichSound s = int (length (launches s) mod 5)
     \<and> (\<forall>e s1. loop e s = Inr s1 \<and> inMozzi s \<noteq> 1 \<and> inMelody s \<noteq> 1 \<and> inChuffing s \<noteq> 1
            \<and> counter s mod 300 = 0
          \<longrightarrow> launches s1 = launches s @ [nthLaunch (length (launches s))])"
  using reachable_rotation [OF assms] launch_extends [OF assms]
  by (auto simp add: rotation_ok_def)


text \<open>
  At tick 1675 of the run with calm input the counter is 1500 and the launches so far are
  the startup melody and the first four of \<open>loop\<close>; the tick launches the fifth.
\<close>

theorem launches_follow_rotation_witness:
  "reachable (calmState 1675)
   \<and> inMozzi (calmState 1675) \<noteq> 1 \<and> inMelody (calmState 1675) \<noteq> 1
   \<and> inChuffing (calmState 1675) \<noteq> 1 \<and> counter (calmState 1675) mod 300 = 0
   \<and> loop calm (calmState 1675) = Inr (calmState 1676)
   \<and> launches (calmState 1675) = [Melody, Melody, Announcement, PulseSequence, ToneSequence]
   \<and> launches (calmState 1676)
       = [Melody, Melody, Announcement, PulseSequence, ToneSequence, Melody]"
proof -
  have r: "reachable (calmState 1675)" by (rule reachable_calmState)
  from quiet_1675 have q: "inMozzi (calmState 1675) \<noteq> 1" "inMelody (calmState 1675) \<noteq> 1"
    "inChuffing (calmState 1675) \<noteq> 1" "counter (calmState 1675) mod 300 = 0"
    "length (launches (calmState 1675)) = 5"
    by (simp_all add: quietAt_def quiet_def settled_def)
  have l: "loop calm (calmState 1675) = Inr (calmState 1676)"
    using calmState_step [of 1675] by simp
  have u: "[0..<5] = [0, 1, 2, 3, 4::nat]" by (simp add: upt_rec)
  note t = launches_follow_rotation [OF r]
  from t have a: "launches (calmState 1675) = map nthLaunch [0..<length (launches (calmState 1675))]"
    by (rule conjunct1)
  from t have all: "\<forall>e s1. loop e (calmState 1675) = Inr s1 \<and> inMozzi (calmState 1675) \<noteq> 1
      \<and> inMelody (calmState 1675) \<noteq> 1 \<and> inChuffing (calmState 1675) \<noteq> 1
      \<and> counter (calmState 1675) mod 300 = 0
      \<longrightarrow> launches s1 = launches (calmState 1675) @ [nthLaunch (length (launches (calmState 1675)))]"
    by (elim conjE)
  have b: "launches (calmState 1676)
        = launches (calmState 1675) @ [nthLaunch (length (launches (calmState 1675)))]"
    using all [rule_format, of calm "calmState 1676"] l q(1-4) by simp
  from a have a5: "launches (calmState 1675)
      = [Melody, Melody, Announcement, PulseSequence, ToneSequence]"
    by (simp only: q(5) u) (simp add: nthLaunch_def loopRotation_def)
  from b have "launches (calmState 1676)
      = [Melody, Melody, Announcement, PulseSequence, ToneSequence, Melody]"
    by (simp only: q(5) a5) (simp add: nthLaunch_def loopRotation_def)
  with r q(1-4) l a5 show ?thesis by simp
qed


text \<open>
  Claim C4 as stated, with the five launches counted from rotation index 0. Tick 1373 of
  the run with calm input, the state the first whistle launch leaves, is the first state
  with \<open>whichSound = 0\<close> (59 ticks end the startup melody; then 299 ticks of lights and
  the launching tick come before each of the second melody, which takes 85 ticks, the
  announcement, the pulses, which take 29, and the whistle). The next five launches of
  \<open>loop\<close>, made in the 1676 ticks that follow, are Melody, Melody, Announcement,
  PulseSequence, ToneSequence.
\<close>

theorem rotation_from_index_zero_counterexample:
  "setup_board = Inr setupState
   \<and> run (replicate 1373 calm) setupState = Inr (calmState 1373)
   \<and> reachable (calmState 1373)
   \<and> whichSound (calmState 1373) = 0
   \<and> run (replicate 1676 calm) (calmState 1373) = Inr (calmState 3049)
   \<and> launches (calmState 3049)
       = launches (calmState 1373) @ [Melody, Melody, Announcement, PulseSequence, ToneSequence]
   \<and> [Melody, Melody, Announcement, PulseSequence, ToneSequence]
       \<noteq> [Melody, Announcement, PulseSequence, ToneSequence, Melody]"
proof -
  have 1: "run (replicate 1373 calm) setupState = Inr (calmState 1373)"
    using run_calmState [of 1373 0] by simp
  have 2: "run (replicate 1676 calm) (calmState 1373) = Inr (calmState 3049)"
    using run_calmState [of 1676 1373] by simp
  show ?thesis
    using setup_board_eq 1 2 reachable_calmState [of 1373] at_1373(1)
    by (simp add: launches_1373 launches_3049)
qed

end
